theory Spec2Isabelle
  imports Complex_Main
begin

section \<open>Data model\<close>

text \<open>
  The module \<^verbatim>\<open>praxis/utils/helpers.py\<close> works on geopandas frames whose
  coordinates are Python floats.  The embedding takes coordinates as real numbers.  The
  lattice of the interpolator is rounded as float64 arithmetic rounds it; the projection,
  the geometric predicates of the libraries and the additions of the grid generator are
  exact.  A point is a coordinate pair, a polygon is the vertex list of its exterior ring
  (the ring is closed implicitly, a repeated first vertex at the end is harmless), and the
  frame handed to \<^verbatim>\<open>polygon_binning_to_points\<close> is the list of its geometries.

  Exceptions are values.  None of them is raised by the module itself: \<open>KeyError\<close> is
  what pandas raises for a missing label (\<^verbatim>\<open>gdf.geometry[0]\<close> on an empty frame,
  \<^verbatim>\<open>gdf[measure]\<close> for a column the frame does not have), \<open>QhullError\<close> is what
  the triangulation inside \<^verbatim>\<open>scipy.interpolate.griddata\<close> raises for fewer than
  three non-collinear points, and \<open>ValueError\<close> is what the same triangulation raises
  when it is given no point at all.
\<close>

type_synonym point = "real \<times> real"
type_synonym polygon = "point list"

datatype error = KeyError | QhullError | ValueError

subsection \<open>Point in polygon (shapely)\<close>

text \<open>
  \<^verbatim>\<open>Polygon.contains(Point)\<close> of shapely holds for the points of the interior
  of the polygon only: a point on an edge or at a vertex is not contained.  For a polygon
  without holes this is the ray-crossing rule: the point is on no edge, and a horizontal
  ray from the point to the right crosses the ring an odd number of times.
\<close>

definition orient :: "point \<Rightarrow> point \<Rightarrow> point \<Rightarrow> real" where
  "orient a b c = (fst b - fst a) * (snd c - snd a) - (snd b - snd a) * (fst c - fst a)"

definition edges :: "polygon \<Rightarrow> (point \<times> point) list" where
  "edges ps = zip ps (rotate1 ps)"

definition on_segment :: "point \<Rightarrow> point \<Rightarrow> point \<Rightarrow> bool" where
  "on_segment a b q \<longleftrightarrow>
     orient a b q = 0 \<and>
     min (fst a) (fst b) \<le> fst q \<and> fst q \<le> max (fst a) (fst b) \<and>
     min (snd a) (snd b) \<le> snd q \<and> snd q \<le> max (snd a) (snd b)"

definition on_boundary :: "polygon \<Rightarrow> point \<Rightarrow> bool" where
  "on_boundary ps q \<longleftrightarrow> (\<exists>e \<in> set (edges ps). on_segment (fst e) (snd e) q)"

definition crosses :: "point \<Rightarrow> point \<Rightarrow> point \<Rightarrow> bool" where
  "crosses a b q \<longleftrightarrow>
     (snd q < snd a) \<noteq> (snd q < snd b) \<and>
     fst q < fst a + (snd q - snd a) * (fst b - fst a) / (snd b - snd a)"

definition contains :: "polygon \<Rightarrow> point \<Rightarrow> bool" where
  "contains ps q \<longleftrightarrow>
     \<not> on_boundary ps q \<and>
     odd (length (filter (\<lambda>e. crosses (fst e) (snd e) q) (edges ps)))"

text \<open>
  \<^verbatim>\<open>geometry.bounds\<close>: the axis-aligned bounding box \<open>(minx, miny, maxx, maxy)\<close>
  of the vertices.  An empty geometry has a bounding box of four NaN, which is \<open>None\<close>
  here; every comparison with NaN is false, so the loops below do not run for it.
\<close>

datatype box = Box real real real real

definition bounds :: "polygon \<Rightarrow> box option" where
  "bounds ps =
     (if ps = [] then None
      else Some (Box (Min (set (map fst ps))) (Min (set (map snd ps)))
                     (Max (set (map fst ps))) (Max (set (map snd ps)))))"

subsection \<open>Reprojection (pyproj)\<close>

text \<open>
  \<^verbatim>\<open>to_crs\<close> maps every vertex through the coordinate transformation and keeps
  the vertex order.  The grid generator is stated for arbitrary transformations
  \<open>to_3857\<close> and \<open>to_4326\<close>; the two that the source names, EPSG:4326 to EPSG:3857
  and back, are the spherical Web Mercator formulas on the WGS 84 semi-major axis.
\<close>

definition semi_major_axis :: real where
  "semi_major_axis = 6378137"

definition to_crs_3857 :: "point \<Rightarrow> point" where
  "to_crs_3857 p =
     (semi_major_axis * (fst p * pi / 180),
      semi_major_axis * arsinh (tan (snd p * pi / 180)))"

definition to_crs_4326 :: "point \<Rightarrow> point" where
  "to_crs_4326 p =
     (fst p / semi_major_axis * 180 / pi,
      arctan (sinh (snd p / semi_major_axis)) * 180 / pi)"


section \<open>The grid generator: \<^verbatim>\<open>polygon_binning_to_points\<close>\<close>

text \<open>
  The state of the two nested \<^verbatim>\<open>while\<close> loops is the triple of the Python
  variables \<^verbatim>\<open>x\<close>, \<^verbatim>\<open>y\<close> and \<^verbatim>\<open>grid_points\<close>.  Neither loop has a
  bound on its number of iterations, so both are partial functions: \<open>None\<close> is a loop
  that never leaves.
\<close>

datatype state = State real real "point list"

fun grid_points :: "state \<Rightarrow> point list" where
  "grid_points (State x y g) = g"

partial_function (option) inner_loop ::
  "polygon \<Rightarrow> real \<Rightarrow> real \<Rightarrow> state \<Rightarrow> state option" where
  "inner_loop poly r maxy s =
     (case s of State x y g \<Rightarrow>
        if y < maxy
        then inner_loop poly r maxy
               (State x (y + r) (if contains poly (x, y) then g @ [(x, y)] else g))
        else Some s)"

partial_function (option) outer_loop ::
  "polygon \<Rightarrow> real \<Rightarrow> box \<Rightarrow> state \<Rightarrow> state option" where
  "outer_loop poly r bbox s =
     (case bbox of Box minx miny maxx maxy \<Rightarrow>
      case s of State x y g \<Rightarrow>
        if x < maxx
        then Option.bind (inner_loop poly r maxy (State x miny g))
               (\<lambda>s'. case s' of State x' y' g' \<Rightarrow> outer_loop poly r bbox (State (x' + r) y' g'))
        else Some s)"

declare inner_loop.simps [code]
declare outer_loop.simps [code]

definition grid_points_of :: "polygon \<Rightarrow> real \<Rightarrow> point list option" where
  "grid_points_of poly r =
     (case bounds poly of
        None \<Rightarrow> Some []
      | Some (Box minx miny maxx maxy) \<Rightarrow>
          map_option grid_points
            (outer_loop poly r (Box minx miny maxx maxy) (State minx miny [])))"

definition polygon_binning_to_points ::
  "(point \<Rightarrow> point) \<Rightarrow> (point \<Rightarrow> point) \<Rightarrow> polygon list \<Rightarrow> real \<Rightarrow>
   (error + point list) option" where
  "polygon_binning_to_points to_3857 to_4326 gdf resolution_m =
     (case gdf of
        [] \<Rightarrow> Some (Inl KeyError)
      | target_polygon # _ \<Rightarrow>
          map_option (\<lambda>g. Inr (map to_4326 g))
            (grid_points_of (map to_3857 target_polygon) resolution_m))"

text \<open>
  The same loops as a transition system, one transition per loop test: the program is
  at the test of the outer loop, at the test of the inner loop, or past both.
\<close>

datatype pc = At_outer | At_inner | Finished

inductive step :: "polygon \<Rightarrow> real \<Rightarrow> box \<Rightarrow> pc \<times> state \<Rightarrow> pc \<times> state \<Rightarrow> bool" where
  outer_enter: "x < maxx \<Longrightarrow>
     step poly r (Box minx miny maxx maxy) (At_outer, State x y g) (At_inner, State x miny g)"
| outer_exit: "\<not> x < maxx \<Longrightarrow>
     step poly r (Box minx miny maxx maxy) (At_outer, State x y g) (Finished, State x y g)"
| inner_body: "y < maxy \<Longrightarrow>
     step poly r (Box minx miny maxx maxy) (At_inner, State x y g)
       (At_inner, State x (y + r) (if contains poly (x, y) then g @ [(x, y)] else g))"
| inner_exit: "\<not> y < maxy \<Longrightarrow>
     step poly r (Box minx miny maxx maxy) (At_inner, State x y g) (At_outer, State (x + r) y g)"

definition returns ::
  "(point \<Rightarrow> point) \<Rightarrow> (point \<Rightarrow> point) \<Rightarrow> polygon list \<Rightarrow> real \<Rightarrow>
   error + point list \<Rightarrow> bool" where
  "returns to_3857 to_4326 gdf r res \<longleftrightarrow>
     (case gdf of
        [] \<Rightarrow> res = Inl KeyError
      | target_polygon # _ \<Rightarrow>
          (case bounds (map to_3857 target_polygon) of
             None \<Rightarrow> res = Inr []
           | Some (Box minx miny maxx maxy) \<Rightarrow>
               (\<exists>s. (step (map to_3857 target_polygon) r (Box minx miny maxx maxy))\<^sup>*\<^sup>*
                       (At_outer, State minx miny []) (Finished, s) \<and>
                    res = Inr (map to_4326 (grid_points s)))))"

text \<open>
  The lattice that the loops walk when the resolution is positive: column after column
  from the minimum corner of the box, each column from \<open>miny\<close> upwards, every node
  strictly below the maximum on its axis.
\<close>

definition steps :: "real \<Rightarrow> real \<Rightarrow> real \<Rightarrow> nat" where
  "steps lo hi r = nat \<lceil>(hi - lo) / r\<rceil>"

definition column :: "real \<Rightarrow> real \<Rightarrow> real \<Rightarrow> real \<Rightarrow> point list" where
  "column r maxy x y = map (\<lambda>j. (x, y + real j * r)) [0..<steps y maxy r]"

definition lattice :: "real \<Rightarrow> real \<Rightarrow> real \<Rightarrow> real \<Rightarrow> real \<Rightarrow> point list" where
  "lattice r miny maxx maxy x =
     concat (map (\<lambda>i. column r maxy (x + real i * r) miny) [0..<steps x maxx r])"

definition lattice_nodes :: "polygon \<Rightarrow> real \<Rightarrow> point list" where
  "lattice_nodes poly r =
     (case bounds poly of
        None \<Rightarrow> []
      | Some (Box minx miny maxx maxy) \<Rightarrow> lattice r miny maxx maxy minx)"


section \<open>The surface interpolator: \<^verbatim>\<open>interpolate_point_measures\<close>\<close>

text \<open>
  The input frame has one geometry per row and named columns of measures, every column
  as long as the geometry column.  The output frame has the same shape; an entry of an
  output column is \<open>None\<close> where the source has NaN, and so is an output node with
  a coordinate that is not finite.
\<close>

record frame =
  geometry :: "point list"
  columns :: "(string \<times> real list) list"

record grid_frame =
  grid_geometry :: "point option list"
  grid_columns :: "(string \<times> real option list) list"

definition wf_frame :: "frame \<Rightarrow> bool" where
  "wf_frame gdf \<longleftrightarrow> (\<forall>c \<in> set (columns gdf). length (snd c) = length (geometry gdf))"

text \<open>
  \<^verbatim>\<open>gdf.total_bounds\<close>: the bounding box of all geometries of the frame, and four
  NaN for a frame without rows (geopandas returns them without raising).
\<close>

definition total_bounds :: "point list \<Rightarrow> box option" where
  "total_bounds pts = bounds pts"

subsection \<open>Float64 arithmetic (numpy)\<close>

text \<open>
  numpy computes the lattice in float64.  A float64 operation returns the exact result
  rounded to the nearest representable number, a tie going to the even significand.  The
  representable numbers have 53 significant bits and a binary exponent from \<open>-1022\<close>
  to \<open>1023\<close>; below \<open>2 ^ -1022\<close> their spacing is \<open>2 ^ -1074\<close> (the subnormal
  numbers), and a result whose rounded magnitude reaches \<open>2 ^ 1024\<close> is infinite.
  \<open>float64 x\<close> is the rounded value of the real number \<open>x\<close>, and \<open>None\<close> when
  that is not finite.  The coordinates of a frame are real numbers here; those that a
  float64 frame can hold satisfy \<open>is_float64\<close>.
\<close>

definition round_even :: "real \<Rightarrow> int" where
  "round_even q =
     (let f = \<lfloor>q\<rfloor>; r = q - of_int f
      in if r < 1 / 2 then f else if 1 / 2 < r then f + 1 else if even f then f else f + 1)"

definition exponent :: "real \<Rightarrow> int" where
  "exponent x = max \<lfloor>log 2 \<bar>x\<bar>\<rfloor> (- 1022)"

definition ulp :: "real \<Rightarrow> real" where
  "ulp x = 2 powr of_int (exponent x - 52)"

definition round64 :: "real \<Rightarrow> real" where
  "round64 x = (if x = 0 then 0 else of_int (round_even (x / ulp x)) * ulp x)"

definition float64 :: "real \<Rightarrow> real option" where
  "float64 x = (if \<bar>round64 x\<bar> < 2 ^ 1024 then Some (round64 x) else None)"

definition is_float64 :: "real \<Rightarrow> bool" where
  "is_float64 x \<longleftrightarrow> float64 x = Some x"

subsection \<open>The lattice (numpy)\<close>

text \<open>
  \<^verbatim>\<open>np.mgrid[xmin:xmax:500j, ymin:ymax:500j]\<close>: with an imaginary step the number
  is the count of nodes per axis.  numpy computes the step of an axis as
  \<open>(stop - start) / 499\<close> and node \<open>i\<close> as \<open>i * step + start\<close>, every operation
  in float64; a result that is not finite stays not finite (infinite or NaN) in the
  operations after it.  \<^verbatim>\<open>flatten\<close> is row-major, so the node with indices
  \<open>(i, j)\<close> is at position \<open>i * 500 + j\<close>.  A node is \<open>None\<close> when one of its
  coordinates is not finite; with NaN bounds every node is.
\<close>

definition grid_size :: nat where
  "grid_size = 500"

definition axis :: "real \<Rightarrow> real \<Rightarrow> nat \<Rightarrow> real option" where
  "axis start stop i =
     Option.bind (float64 (stop - start)) (\<lambda>d.
     Option.bind (float64 (d / real (grid_size - 1))) (\<lambda>step.
     Option.bind (float64 (real i * step)) (\<lambda>p. float64 (p + start))))"

definition grid_point :: "real option \<Rightarrow> real option \<Rightarrow> point option" where
  "grid_point x y = Option.bind x (\<lambda>a. Option.bind y (\<lambda>b. Some (a, b)))"

definition mgrid :: "box option \<Rightarrow> point option list" where
  "mgrid b =
     (case b of
        None \<Rightarrow> replicate (grid_size * grid_size) None
      | Some (Box xmin ymin xmax ymax) \<Rightarrow>
          concat (map (\<lambda>i. map (\<lambda>j. grid_point (axis xmin xmax i) (axis ymin ymax j))
                                [0..<grid_size])
                    [0..<grid_size]))"

subsection \<open>Linear scattered-data interpolation (scipy)\<close>

text \<open>
  \<^verbatim>\<open>griddata(points, values, xi, method='linear')\<close> triangulates the points
  (Delaunay, by Qhull), locates the triangle of each query point and interpolates with
  its barycentric coordinates; a query point in no triangle gets the default
  \<^verbatim>\<open>fill_value\<close>, NaN.  The triangulation refuses an input in which no three points
  span a triangle.

  The triangles are given here by the defining property of a Delaunay triangulation:
  three input points that are not collinear and have no input point strictly inside
  their circumcircle.  Where four or more input points lie on one circle, Qhull keeps
  one of the possible triangulations of them; the model keeps every candidate triangle
  and locates a query point in the first that has it.
\<close>

definition degenerate :: "point list \<Rightarrow> bool" where
  "degenerate pts \<longleftrightarrow> (\<forall>a \<in> set pts. \<forall>b \<in> set pts. \<forall>c \<in> set pts. orient a b c = 0)"

definition incircle :: "point \<Rightarrow> point \<Rightarrow> point \<Rightarrow> point \<Rightarrow> real" where
  "incircle a b c d =
     (let ax = fst a - fst d; ay = snd a - snd d;
          bx = fst b - fst d; by = snd b - snd d;
          cx = fst c - fst d; cy = snd c - snd d
      in (ax * ax + ay * ay) * (bx * cy - cx * by)
       - (bx * bx + by * by) * (ax * cy - cx * ay)
       + (cx * cx + cy * cy) * (ax * by - bx * ay))"

definition in_circle :: "point \<Rightarrow> point \<Rightarrow> point \<Rightarrow> point \<Rightarrow> bool" where
  "in_circle a b c d \<longleftrightarrow> 0 < orient a b c * incircle a b c d"

definition is_delaunay :: "point list \<Rightarrow> nat \<times> nat \<times> nat \<Rightarrow> bool" where
  "is_delaunay pts t =
     (case t of (i, j, k) \<Rightarrow>
        orient (pts ! i) (pts ! j) (pts ! k) \<noteq> 0 \<and>
        (\<forall>d \<in> set pts. \<not> in_circle (pts ! i) (pts ! j) (pts ! k) d))"

definition delaunay :: "point list \<Rightarrow> (nat \<times> nat \<times> nat) list" where
  "delaunay pts =
     filter (is_delaunay pts)
       (concat (map (\<lambda>i. concat (map (\<lambda>j. map (\<lambda>k. (i, j, k)) [Suc j..<length pts])
                                      [Suc i..<length pts]))
                    [0..<length pts]))"

definition barycentric :: "point \<Rightarrow> point \<Rightarrow> point \<Rightarrow> point \<Rightarrow> real \<times> real \<times> real" where
  "barycentric a b c q =
     (orient q b c / orient a b c, orient a q c / orient a b c, orient a b q / orient a b c)"

definition in_simplex :: "point list \<Rightarrow> point \<Rightarrow> nat \<times> nat \<times> nat \<Rightarrow> bool" where
  "in_simplex pts q t =
     (case t of (i, j, k) \<Rightarrow>
      case barycentric (pts ! i) (pts ! j) (pts ! k) q of (c1, c2, c3) \<Rightarrow>
        0 \<le> c1 \<and> 0 \<le> c2 \<and> 0 \<le> c3)"

definition find_simplex :: "point list \<Rightarrow> point \<Rightarrow> (nat \<times> nat \<times> nat) option" where
  "find_simplex pts q = find (in_simplex pts q) (delaunay pts)"

definition interpolate :: "point list \<Rightarrow> real list \<Rightarrow> point option \<Rightarrow> real option" where
  "interpolate pts vals xi =
     (case xi of
        None \<Rightarrow> None
      | Some q \<Rightarrow>
          (case find_simplex pts q of
             None \<Rightarrow> None
           | Some (i, j, k) \<Rightarrow>
               (case barycentric (pts ! i) (pts ! j) (pts ! k) q of (c1, c2, c3) \<Rightarrow>
                  Some (c1 * vals ! i + c2 * vals ! j + c3 * vals ! k))))"

definition griddata ::
  "point list \<Rightarrow> real list \<Rightarrow> point option list \<Rightarrow> error + real option list" where
  "griddata pts vals xi =
     (if length vals \<noteq> length pts \<or> pts = [] then Inl ValueError
      else if degenerate pts then Inl QhullError
      else Inr (map (interpolate pts vals) xi))"

subsection \<open>The function\<close>

text \<open>
  \<^verbatim>\<open>interpolated_data\<close> is a Python dictionary: assigning to a key that is already
  there replaces its value and keeps its position, a new key goes to the end.  The loop
  over \<^verbatim>\<open>selected_measures\<close> stops at the first exception.
\<close>

fun dict_set :: "string \<Rightarrow> 'v \<Rightarrow> (string \<times> 'v) list \<Rightarrow> (string \<times> 'v) list" where
  "dict_set k v [] = [(k, v)]"
| "dict_set k v (p # ps) = (if fst p = k then (k, v) # ps else p # dict_set k v ps)"

fun measure_loop ::
  "frame \<Rightarrow> point option list \<Rightarrow> string list \<Rightarrow> (string \<times> real option list) list \<Rightarrow>
   error + (string \<times> real option list) list" where
  "measure_loop gdf grid [] interpolated_data = Inr interpolated_data"
| "measure_loop gdf grid (name # rest) interpolated_data =
     (case map_of (columns gdf) name of
        None \<Rightarrow> Inl KeyError
      | Some vals \<Rightarrow>
          (case griddata (geometry gdf) vals grid of
             Inl e \<Rightarrow> Inl e
           | Inr interpolated_values \<Rightarrow>
               measure_loop gdf grid rest (dict_set name interpolated_values interpolated_data)))"

definition interpolate_point_measures :: "frame \<Rightarrow> string list \<Rightarrow> error + grid_frame" where
  "interpolate_point_measures gdf selected_measures =
     (let grid = mgrid (total_bounds (geometry gdf))
      in case measure_loop gdf grid selected_measures [] of
           Inl e \<Rightarrow> Inl e
         | Inr interpolated_data \<Rightarrow>
             Inr \<lparr>grid_geometry = grid, grid_columns = interpolated_data\<rparr>)"

text \<open>
  The convex hull of the input points: all their convex combinations.
\<close>

definition in_hull :: "point list \<Rightarrow> point \<Rightarrow> bool" where
  "in_hull pts q \<longleftrightarrow>
     (\<exists>w. (\<forall>i < length pts. 0 \<le> w i) \<and> (\<Sum>i < length pts. w i) = 1 \<and>
          fst q = (\<Sum>i < length pts. w i * fst (pts ! i)) \<and>
          snd q = (\<Sum>i < length pts. w i * snd (pts ! i)))"

text \<open>
  The squared distance of two points, and the inner product of the two vectors from the
  ends of a chord \<open>p q\<close> to a point \<open>s\<close>; it is negative exactly for the points
  strictly inside the circle with diameter \<open>p q\<close>.
\<close>

definition dist2 :: "point \<Rightarrow> point \<Rightarrow> real" where
  "dist2 a b = (fst a - fst b)\<^sup>2 + (snd a - snd b)\<^sup>2"

definition dot2 :: "point \<Rightarrow> point \<Rightarrow> point \<Rightarrow> real" where
  "dot2 p q s = (fst s - fst p) * (fst s - fst q) + (snd s - snd p) * (snd s - snd q)"


section \<open>Concrete inputs\<close>

text \<open>
  The unit square of the specification's scenario, in degrees of longitude and latitude;
  a large triangle with one edge that is neither a meridian nor a parallel, and the points
  that the grid generator returns for it at a resolution of 5700 km.
\<close>

definition unit_square :: polygon where
  "unit_square = [(0, 0), (1, 0), (1, 1), (0, 1)]"

definition big_triangle :: polygon where
  "big_triangle = [(0, 0), (180, 0), (0, 60)]"

definition big_triangle_points :: "point list" where
  "big_triangle_points =
     map to_crs_4326
       (filter (contains (map to_crs_3857 big_triangle))
          (lattice_nodes (map to_crs_3857 big_triangle) 5700000))"

text \<open>
  Frames of measured points: the three points of the specification's scenario with their
  interpolated surface, frames with one, two and no point, the grid returned for a frame
  without points when no measure is requested, and a frame in which two rows have the
  same coordinates, with its interpolated surface.
\<close>

definition three_points :: frame where
  "three_points =
     \<lparr>geometry = [(0, 0), (1, 0), (0, 1)], columns = [(''temp'', [10, 20, 30])]\<rparr>"

definition three_points_surface :: grid_frame where
  "three_points_surface =
     \<lparr>grid_geometry = mgrid (Some (Box 0 0 1 1)),
      grid_columns =
        [(''temp'', map (interpolate [(0, 0), (1, 0), (0, 1)] [10, 20, 30])
                      (mgrid (Some (Box 0 0 1 1))))]\<rparr>"

definition single_point :: frame where
  "single_point = \<lparr>geometry = [(0, 0)], columns = [(''temp'', [10])]\<rparr>"

definition two_points :: frame where
  "two_points = \<lparr>geometry = [(0, 0), (1, 1)], columns = [(''temp'', [10, 20])]\<rparr>"

definition no_points :: frame where
  "no_points = \<lparr>geometry = [], columns = [(''temp'', [])]\<rparr>"

definition undefined_grid :: grid_frame where
  "undefined_grid =
     \<lparr>grid_geometry = replicate (500 * 500) None, grid_columns = []\<rparr>"

definition duplicated_points :: frame where
  "duplicated_points =
     \<lparr>geometry = [(0, 0), (0, 0), (1, 0), (0, 1)],
      columns = [(''temp'', [10, 20, 20, 30])]\<rparr>"

definition duplicated_surface :: grid_frame where
  "duplicated_surface =
     \<lparr>grid_geometry = mgrid (Some (Box 0 0 1 1)),
      grid_columns =
        [(''temp'', map (interpolate [(0, 0), (0, 0), (1, 0), (0, 1)] [10, 20, 20, 30])
                      (mgrid (Some (Box 0 0 1 1))))]\<rparr>"


section \<open>Properties of the grid generator\<close>

subsection \<open>The loops in closed form\<close>

lemma steps_0_iff: "0 < r \<Longrightarrow> steps lo hi r = 0 \<longleftrightarrow> \<not> lo < hi"
  by (auto simp add: steps_def field_simps)

lemma steps_Suc:
  assumes "0 < r" "lo < hi"
  shows "steps lo hi r = Suc (steps (lo + r) hi r)"
proof -
  have "(hi - lo) / r = (hi - (lo + r)) / r + 1"
    using assms by (simp add: field_simps)
  moreover have "0 < (hi - lo) / r" using assms by simp
  ultimately show ?thesis
    unfolding steps_def by (simp add: nat_add_distrib)
qed

lemma upt_Suc_shift: "[0..<Suc n] = 0 # map Suc [0..<n]"
  by (simp add: upt_conv_Cons map_Suc_upt del: upt_Suc)

lemma column_stop: "0 < r \<Longrightarrow> \<not> y < maxy \<Longrightarrow> column r maxy x y = []"
  by (simp add: column_def steps_0_iff)

lemma column_step:
  assumes "0 < r" "y < maxy"
  shows "column r maxy x y = (x, y) # column r maxy x (y + r)"
  unfolding column_def steps_Suc [OF assms] upt_Suc_shift
  by (simp add: o_def algebra_simps)

lemma inner_loop_closed:
  assumes "0 < r"
  shows "inner_loop poly r maxy (State x y acc) =
         Some (State x (y + real (steps y maxy r) * r)
                 (acc @ filter (contains poly) (column r maxy x y)))"
proof (induction "steps y maxy r" arbitrary: y acc)
  case 0
  then have "\<not> y < maxy" using assms by (simp add: steps_0_iff)
  then show ?case using assms 0 [symmetric] by (simp add: inner_loop.simps column_stop)
next
  case (Suc n)
  then have lt: "y < maxy" using assms steps_0_iff [of r y maxy] by auto
  with Suc assms have n: "n = steps (y + r) maxy r" by (simp add: steps_Suc)
  from Suc.hyps(1) [OF n] lt assms show ?case
    by (subst inner_loop.simps) (simp add: column_step steps_Suc algebra_simps)
qed

lemma lattice_stop: "0 < r \<Longrightarrow> \<not> x < maxx \<Longrightarrow> lattice r miny maxx maxy x = []"
  by (simp add: lattice_def steps_0_iff)

lemma lattice_step:
  assumes "0 < r" "x < maxx"
  shows "lattice r miny maxx maxy x = column r maxy x miny @ lattice r miny maxx maxy (x + r)"
  unfolding lattice_def steps_Suc [OF assms] upt_Suc_shift
  by (simp add: o_def algebra_simps)

lemma outer_loop_closed:
  assumes "0 < r"
  shows "\<exists>x' y'. outer_loop poly r (Box minx miny maxx maxy) (State x y acc) =
           Some (State x' y' (acc @ filter (contains poly) (lattice r miny maxx maxy x)))"
proof (induction "steps x maxx r" arbitrary: x y acc)
  case 0
  then have "\<not> x < maxx" using assms by (simp add: steps_0_iff)
  then show ?case using assms by (simp add: outer_loop.simps lattice_stop)
next
  case (Suc n)
  then have lt: "x < maxx" using assms steps_0_iff [of r x maxx] by auto
  with Suc assms have n: "n = steps (x + r) maxx r" by (simp add: steps_Suc)
  let ?y = "miny + real (steps miny maxy r) * r"
  let ?g = "acc @ filter (contains poly) (column r maxy x miny)"
  from Suc.hyps(1) [OF n, of ?y ?g] obtain x' y' where
    "outer_loop poly r (Box minx miny maxx maxy) (State (x + r) ?y ?g) =
       Some (State x' y' (?g @ filter (contains poly) (lattice r miny maxx maxy (x + r))))"
    by blast
  with lt assms show ?case
    by (subst outer_loop.simps) (simp add: lattice_step inner_loop_closed)
qed

lemma grid_points_of_closed:
  assumes "0 < r"
  shows "grid_points_of poly r = Some (filter (contains poly) (lattice_nodes poly r))"
proof (cases "bounds poly")
  case None
  then show ?thesis by (simp add: grid_points_of_def lattice_nodes_def)
next
  case (Some b)
  obtain minx miny maxx maxy where b: "b = Box minx miny maxx maxy" by (cases b)
  from outer_loop_closed [OF assms, of poly minx miny maxx maxy minx miny "[]"]
  show ?thesis using Some b by (auto simp: grid_points_of_def lattice_nodes_def)
qed

lemma binning_closed:
  assumes "0 < r"
  shows "polygon_binning_to_points to_3857 to_4326 (poly # rest) r =
         Some (Inr (map to_4326
           (filter (contains (map to_3857 poly)) (lattice_nodes (map to_3857 poly) r))))"
  by (simp add: polygon_binning_to_points_def grid_points_of_closed [OF assms])

text \<open>
  Every node of the lattice is the minimum corner moved by whole multiples of the
  resolution, and lies in the box, below the maximum on each axis.
\<close>

lemma steps_bound:
  assumes "0 < r" "i < steps lo hi r"
  shows "lo + real i * r < hi"
proof -
  from assms(2) have "int i < \<lceil>(hi - lo) / r\<rceil>"
    unfolding steps_def by linarith
  then have "real_of_int (int i) < (hi - lo) / r"
    by (simp only: less_ceiling_iff)
  then have "real i < (hi - lo) / r" by simp
  with assms(1) show ?thesis by (simp add: field_simps)
qed

lemma steps_reach:
  assumes "0 < r" "lo + real i * r < hi"
  shows "i < steps lo hi r"
proof -
  from assms have "real_of_int (int i) < (hi - lo) / r" by (simp add: field_simps)
  then have "int i < \<lceil>(hi - lo) / r\<rceil>"
    by (simp only: less_ceiling_iff)
  then show ?thesis unfolding steps_def by linarith
qed

lemma steps_iff: "0 < r \<Longrightarrow> i < steps lo hi r \<longleftrightarrow> lo + real i * r < hi"
  using steps_bound steps_reach by blast

lemma set_column:
  assumes "0 < r"
  shows "set (column r maxy x y) = {(x, y + real j * r) | j. y + real j * r < maxy}"
  unfolding column_def using steps_iff [OF assms] by (auto simp: image_iff)

lemma set_lattice:
  assumes "0 < r"
  shows "set (lattice r miny maxx maxy minx) =
         {(minx + real i * r, miny + real j * r) | i j.
            minx + real i * r < maxx \<and> miny + real j * r < maxy}"
proof -
  have "set (lattice r miny maxx maxy minx) =
        (\<Union>i \<in> {i. minx + real i * r < maxx}. set (column r maxy (minx + real i * r) miny))"
    unfolding lattice_def using steps_iff [OF assms] by auto
  also have "\<dots> = {(minx + real i * r, miny + real j * r) | i j.
            minx + real i * r < maxx \<and> miny + real j * r < maxy}"
    unfolding set_column [OF assms] by blast
  finally show ?thesis .
qed

subsection \<open>Non-positive resolution\<close>

lemma inner_loop_returns:
  assumes ret: "inner_loop poly r maxy s = Some s'"
  shows "\<not> (r \<le> 0 \<and> (case s of State x y g \<Rightarrow> y < maxy))"
proof (rule inner_loop.raw_induct
    [where P = "\<lambda>poly r maxy s s'. \<not> (r \<le> 0 \<and> (case s of State x y g \<Rightarrow> y < maxy))", OF _ ret])
  fix f poly r maxy s s'
  assume IH: "\<And>poly r maxy s s'. f poly r maxy s = Some s' \<Longrightarrow>
                 \<not> (r \<le> 0 \<and> (case s of State x y g \<Rightarrow> y < maxy))"
    and eq: "(case s of State x y g \<Rightarrow>
        if y < maxy
        then f poly r maxy
               (State x (y + r) (if contains poly (x, y) then g @ [(x, y)] else g))
        else Some s) = Some s'"
  show "\<not> (r \<le> (0::real) \<and> (case s of State x y g \<Rightarrow> y < maxy))"
  proof
    assume c: "r \<le> 0 \<and> (case s of State x y g \<Rightarrow> y < maxy)"
    obtain x y g where s: "s = State x y g" by (cases s)
    with eq c have "f poly r maxy
        (State x (y + r) (if contains poly (x, y) then g @ [(x, y)] else g)) = Some s'"
      by simp
    from IH [OF this] c s show False by simp
  qed
qed

lemma inner_loop_diverges:
  assumes "r \<le> 0" "y < maxy"
  shows "inner_loop poly r maxy (State x y acc) = None"
  using inner_loop_returns [of poly r maxy "State x y acc"] assms
  by (cases "inner_loop poly r maxy (State x y acc)") auto

lemma outer_loop_diverges:
  assumes "r \<le> 0" "x < maxx" "miny < maxy"
  shows "outer_loop poly r (Box minx miny maxx maxy) (State x y acc) = None"
  using assms by (subst outer_loop.simps) (simp add: inner_loop_diverges)

lemma bounds_proper:
  assumes "a \<in> set ps" "b \<in> set ps" "fst a < fst b" "c \<in> set ps" "d \<in> set ps" "snd c < snd d"
  shows "\<exists>minx miny maxx maxy.
           bounds ps = Some (Box minx miny maxx maxy) \<and> minx < maxx \<and> miny < maxy"
proof -
  have "Min (fst ` set ps) \<le> fst a" "fst b \<le> Max (fst ` set ps)"
    "Min (snd ` set ps) \<le> snd c" "snd d \<le> Max (snd ` set ps)"
    using assms by (auto intro: Min_le Max_ge)
  with assms(3,6) have "Min (fst ` set ps) < Max (fst ` set ps)"
    "Min (snd ` set ps) < Max (snd ` set ps)"
    by linarith+
  moreover from assms(1) have "ps \<noteq> []" by auto
  ultimately show ?thesis by (simp add: bounds_def)
qed

lemma binning_diverges:
  assumes "r \<le> 0"
    and "a \<in> set poly" "b \<in> set poly" "fst (to_3857 a) < fst (to_3857 b)"
    and "c \<in> set poly" "d \<in> set poly" "snd (to_3857 c) < snd (to_3857 d)"
  shows "polygon_binning_to_points to_3857 to_4326 (poly # rest) r = None"
proof -
  from bounds_proper [of "to_3857 a" "map to_3857 poly" "to_3857 b" "to_3857 c" "to_3857 d"]
    assms(2-)
  obtain minx miny maxx maxy where
    "bounds (map to_3857 poly) = Some (Box minx miny maxx maxy)" "minx < maxx" "miny < maxy"
    by auto
  with assms(1) show ?thesis
    by (simp add: polygon_binning_to_points_def grid_points_of_def outer_loop_diverges)
qed

lemma mercator_unit:
  "fst (to_crs_3857 (0, 0)) < fst (to_crs_3857 (1, 0))"
  "snd (to_crs_3857 (0, 0)) < snd (to_crs_3857 (0, 1))"
proof -
  have "0 < pi / 180" "pi / 180 < pi / 2" by simp_all
  then have "0 < tan (pi / 180)" by (rule tan_gt_zero)
  then show "snd (to_crs_3857 (0, 0)) < snd (to_crs_3857 (0, 1))"
    by (simp add: to_crs_3857_def semi_major_axis_def)
  show "fst (to_crs_3857 (0, 0)) < fst (to_crs_3857 (1, 0))"
    by (simp add: to_crs_3857_def semi_major_axis_def)
qed

text \<open>
  A resolution that is at least the extent of the box on both axes leaves one lattice
  node, the minimum corner, so at most one point is returned.
\<close>

lemma lattice_coarse:
  assumes "0 < r" "maxx - minx \<le> r" "maxy - miny \<le> r"
  shows "length (lattice r miny maxx maxy minx) \<le> 1"
proof -
  have "steps lo hi r \<le> 1" if "hi - lo \<le> r" for lo hi
  proof -
    from that assms(1) have "(hi - lo) / r \<le> 1" by (simp add: field_simps)
    then have "\<lceil>(hi - lo) / r\<rceil> \<le> 1" by (simp add: ceiling_le_iff)
    then show ?thesis unfolding steps_def by linarith
  qed
  from this [OF assms(2)] this [OF assms(3)]
  have "steps minx maxx r = 0 \<or> steps minx maxx r = 1" "steps miny maxy r = 0 \<or> steps miny maxy r = 1"
    by linarith+
  then show ?thesis
    by (auto simp: lattice_def column_def)
qed

subsection \<open>What the loops retain\<close>

lemma inner_loop_retains:
  assumes ret: "inner_loop poly r maxy s = Some s'"
  shows "set (grid_points s') \<subseteq> set (grid_points s) \<union> {n. contains poly n}"
proof (rule inner_loop.raw_induct
    [where P = "\<lambda>poly r maxy s s'.
        set (grid_points s') \<subseteq> set (grid_points s) \<union> {n. contains poly n}", OF _ ret])
  fix f poly r maxy s s'
  assume IH: "\<And>poly r maxy s s'. f poly r maxy s = Some s' \<Longrightarrow>
        set (grid_points s') \<subseteq> set (grid_points s) \<union> {n. contains poly n}"
    and eq: "(case s of State x y g \<Rightarrow>
        if y < maxy
        then f poly r maxy
               (State x (y + r) (if contains poly (x, y) then g @ [(x, y)] else g))
        else Some s) = Some s'"
  obtain x y g where s: "s = State x y g" by (cases s)
  show "set (grid_points s') \<subseteq> set (grid_points s) \<union> {n. contains poly n}"
  proof (cases "y < maxy")
    case True
    with eq s have "f poly r maxy
        (State x (y + r) (if contains poly (x, y) then g @ [(x, y)] else g)) = Some s'"
      by simp
    from IH [OF this] s show ?thesis by (auto split: if_splits)
  next
    case False
    with eq s show ?thesis by auto
  qed
qed

lemma outer_loop_retains:
  assumes ret: "outer_loop poly r bbox s = Some s'"
  shows "set (grid_points s') \<subseteq> set (grid_points s) \<union> {n. contains poly n}"
proof (rule outer_loop.raw_induct
    [where P = "\<lambda>poly r bbox s s'.
        set (grid_points s') \<subseteq> set (grid_points s) \<union> {n. contains poly n}", OF _ ret])
  fix f poly r bbox s s'
  assume IH: "\<And>poly r bbox s s'. f poly r bbox s = Some s' \<Longrightarrow>
        set (grid_points s') \<subseteq> set (grid_points s) \<union> {n. contains poly n}"
    and eq: "(case bbox of Box minx miny maxx maxy \<Rightarrow>
      case s of State x y g \<Rightarrow>
        if x < maxx
        then Option.bind (inner_loop poly r maxy (State x miny g))
               (\<lambda>s'. case s' of State x' y' g' \<Rightarrow> f poly r bbox (State (x' + r) y' g'))
        else Some s) = Some s'"
  obtain x y g where s: "s = State x y g" by (cases s)
  obtain minx miny maxx maxy where b: "bbox = Box minx miny maxx maxy" by (cases bbox)
  show "set (grid_points s') \<subseteq> set (grid_points s) \<union> {n. contains poly n}"
  proof (cases "x < maxx")
    case True
    with eq s b obtain s1 where
      in1: "inner_loop poly r maxy (State x miny g) = Some s1" and
      rest: "(case s1 of State x' y' g' \<Rightarrow> f poly r bbox (State (x' + r) y' g')) = Some s'"
      by (auto simp: bind_eq_Some_conv)
    obtain x1 y1 g1 where s1: "s1 = State x1 y1 g1" by (cases s1)
    from rest s1 have "f poly r bbox (State (x1 + r) y1 g1) = Some s'" by simp
    from IH [OF this] inner_loop_retains [OF in1] s s1 show ?thesis by auto
  next
    case False
    with eq s b show ?thesis by auto
  qed
qed

lemma grid_points_of_contained:
  assumes "grid_points_of poly r = Some ns" "n \<in> set ns"
  shows "contains poly n"
proof (cases "bounds poly")
  case None
  with assms show ?thesis by (simp add: grid_points_of_def)
next
  case (Some b)
  obtain minx miny maxx maxy where b: "b = Box minx miny maxx maxy" by (cases b)
  with Some assms(1) obtain s where
    "outer_loop poly r (Box minx miny maxx maxy) (State minx miny []) = Some s"
    "ns = grid_points s"
    by (auto simp: grid_points_of_def)
  with outer_loop_retains [of poly r "Box minx miny maxx maxy" "State minx miny []" s] assms(2)
  show ?thesis by auto
qed

subsection \<open>Determinism\<close>

lemma step_deterministic:
  assumes "step poly r bbox c c1" "step poly r bbox c c2"
  shows "c1 = c2"
  using assms by (auto elim!: step.cases)

lemma finished_stuck: "\<not> step poly r bbox (Finished, s) c"
  by (auto elim: step.cases)

lemma run_deterministic:
  assumes "(step poly r bbox)\<^sup>*\<^sup>* c (Finished, s1)" "(step poly r bbox)\<^sup>*\<^sup>* c (Finished, s2)"
  shows "s1 = s2"
  using assms
proof (induction rule: converse_rtranclp_induct)
  case base
  then show ?case
    by (auto elim: converse_rtranclpE simp: finished_stuck)
next
  case (step c c')
  from step.prems step.hyps(1) have "(step poly r bbox)\<^sup>*\<^sup>* c' (Finished, s2)"
    by (cases rule: converse_rtranclpE) (auto simp: finished_stuck dest: step_deterministic)
  then show ?case by (rule step.IH)
qed

text \<open>The recursive loops and the transition system agree on every run that ends.\<close>

lemma inner_loop_run:
  assumes ret: "inner_loop poly r maxy s = Some s'"
  shows "(step poly r (Box minx miny maxx maxy))\<^sup>*\<^sup>* (At_inner, s) (At_inner, s') \<and>
         (case s' of State x y g \<Rightarrow> \<not> y < maxy)"
proof (rule inner_loop.raw_induct
    [where P = "\<lambda>poly r maxy s s'.
        (step poly r (Box minx miny maxx maxy))\<^sup>*\<^sup>* (At_inner, s) (At_inner, s') \<and>
        (case s' of State x y g \<Rightarrow> \<not> y < maxy)", OF _ ret])
  fix f poly r maxy s s'
  assume IH: "\<And>poly r maxy s s'. f poly r maxy s = Some s' \<Longrightarrow>
        (step poly r (Box minx miny maxx maxy))\<^sup>*\<^sup>* (At_inner, s) (At_inner, s') \<and>
        (case s' of State x y g \<Rightarrow> \<not> y < maxy)"
    and eq: "(case s of State x y g \<Rightarrow>
        if y < maxy
        then f poly r maxy
               (State x (y + r) (if contains poly (x, y) then g @ [(x, y)] else g))
        else Some s) = Some s'"
  obtain x y g where s: "s = State x y g" by (cases s)
  show "(step poly r (Box minx miny maxx maxy))\<^sup>*\<^sup>* (At_inner, s) (At_inner, s') \<and>
        (case s' of State x y g \<Rightarrow> \<not> y < maxy)"
  proof (cases "y < maxy")
    case True
    let ?n = "State x (y + r) (if contains poly (x, y) then g @ [(x, y)] else g)"
    from eq s True have "f poly r maxy ?n = Some s'" by simp
    from IH [OF this] have
      rest: "(step poly r (Box minx miny maxx maxy))\<^sup>*\<^sup>* (At_inner, ?n) (At_inner, s')"
      and stop: "case s' of State x y g \<Rightarrow> \<not> y < maxy" by simp_all
    from True have "step poly r (Box minx miny maxx maxy) (At_inner, s) (At_inner, ?n)"
      unfolding s by (rule inner_body)
    with rest stop show ?thesis by (auto intro: converse_rtranclp_into_rtranclp)
  next
    case False
    with eq s show ?thesis by auto
  qed
qed

lemma outer_loop_run:
  assumes ret: "outer_loop poly r bbox s = Some s'"
  shows "(step poly r bbox)\<^sup>*\<^sup>* (At_outer, s) (Finished, s')"
proof (rule outer_loop.raw_induct
    [where P = "\<lambda>poly r bbox s s'. (step poly r bbox)\<^sup>*\<^sup>* (At_outer, s) (Finished, s')", OF _ ret])
  fix f poly r bbox s s'
  assume IH: "\<And>poly r bbox s s'. f poly r bbox s = Some s' \<Longrightarrow>
        (step poly r bbox)\<^sup>*\<^sup>* (At_outer, s) (Finished, s')"
    and eq: "(case bbox of Box minx miny maxx maxy \<Rightarrow>
      case s of State x y g \<Rightarrow>
        if x < maxx
        then Option.bind (inner_loop poly r maxy (State x miny g))
               (\<lambda>s'. case s' of State x' y' g' \<Rightarrow> f poly r bbox (State (x' + r) y' g'))
        else Some s) = Some s'"
  obtain x y g where s: "s = State x y g" by (cases s)
  obtain minx miny maxx maxy where b: "bbox = Box minx miny maxx maxy" by (cases bbox)
  show "(step poly r bbox)\<^sup>*\<^sup>* (At_outer, s) (Finished, s')"
  proof (cases "x < maxx")
    case True
    with eq s b obtain s1 where
      in1: "inner_loop poly r maxy (State x miny g) = Some s1" and
      rest: "(case s1 of State x' y' g' \<Rightarrow> f poly r bbox (State (x' + r) y' g')) = Some s'"
      by (auto simp: bind_eq_Some_conv)
    obtain x1 y1 g1 where s1: "s1 = State x1 y1 g1" by (cases s1)
    from inner_loop_run [OF in1, of minx miny maxx] s1 b have
      run1: "(step poly r bbox)\<^sup>*\<^sup>* (At_inner, State x miny g) (At_inner, State x1 y1 g1)"
      and stop: "\<not> y1 < maxy" by simp_all
    from rest s1 have "f poly r bbox (State (x1 + r) y1 g1) = Some s'" by simp
    from IH [OF this] have
      run2: "(step poly r bbox)\<^sup>*\<^sup>* (At_outer, State (x1 + r) y1 g1) (Finished, s')" .
    have e: "step poly r bbox (At_outer, s) (At_inner, State x miny g)"
      unfolding s b using True by (rule outer_enter)
    have x: "step poly r bbox (At_inner, State x1 y1 g1) (At_outer, State (x1 + r) y1 g1)"
      unfolding b using stop by (rule inner_exit)
    from e run1 x run2 show ?thesis
      by (meson converse_rtranclp_into_rtranclp rtranclp.rtrancl_into_rtrancl rtranclp_trans)
  next
    case False
    with eq s b have "s' = s" by simp
    moreover have "step poly r bbox (At_outer, s) (Finished, s)"
      unfolding s b using False by (rule outer_exit)
    ultimately show ?thesis by auto
  qed
qed

lemma binning_is_run:
  assumes "polygon_binning_to_points to_3857 to_4326 gdf r = Some res"
  shows "returns to_3857 to_4326 gdf r res"
proof (cases gdf)
  case Nil
  with assms show ?thesis by (simp add: polygon_binning_to_points_def returns_def)
next
  case (Cons poly rest)
  show ?thesis
  proof (cases "bounds (map to_3857 poly)")
    case None
    with assms Cons show ?thesis
      by (auto simp: polygon_binning_to_points_def returns_def grid_points_of_def)
  next
    case (Some b)
    obtain minx miny maxx maxy where b: "b = Box minx miny maxx maxy" by (cases b)
    with assms Cons Some obtain s where
      s: "outer_loop (map to_3857 poly) r (Box minx miny maxx maxy) (State minx miny []) = Some s"
      and res: "res = Inr (map to_4326 (grid_points s))"
      by (auto simp: polygon_binning_to_points_def grid_points_of_def)
    from outer_loop_run [OF s] res Cons Some b show ?thesis
      by (auto simp: returns_def)
  qed
qed

text \<open>Conversely, every run of the transition system that ends is a result of the loops.\<close>

lemma run_is_loop:
  assumes "(step poly r (Box minx miny maxx maxy))\<^sup>*\<^sup>* c (Finished, f)"
  shows "case c of
           (At_outer, s) \<Rightarrow> outer_loop poly r (Box minx miny maxx maxy) s = Some f
         | (At_inner, s) \<Rightarrow>
             Option.bind (inner_loop poly r maxy s)
               (\<lambda>s'. case s' of State x' y' g' \<Rightarrow>
                  outer_loop poly r (Box minx miny maxx maxy) (State (x' + r) y' g')) = Some f
         | (Finished, s) \<Rightarrow> s = f"
  using assms
proof (induction rule: converse_rtranclp_induct)
  case base
  then show ?case by simp
next
  case (step c c')
  from step.hyps(1) show ?case
  proof (cases rule: step.cases)
    case (outer_enter x y g)
    with step.IH show ?thesis by (subst outer_loop.simps) simp
  next
    case (outer_exit x y g)
    with step.IH show ?thesis by (subst outer_loop.simps) auto
  next
    case (inner_body y x g)
    with step.IH show ?thesis by (subst inner_loop.simps) simp
  next
    case (inner_exit y x g)
    with step.IH show ?thesis by (subst inner_loop.simps) simp
  qed
qed

lemma returns_iff:
  "returns to_3857 to_4326 gdf r res \<longleftrightarrow>
     polygon_binning_to_points to_3857 to_4326 gdf r = Some res"
proof
  assume "polygon_binning_to_points to_3857 to_4326 gdf r = Some res"
  then show "returns to_3857 to_4326 gdf r res" by (rule binning_is_run)
next
  assume ret: "returns to_3857 to_4326 gdf r res"
  show "polygon_binning_to_points to_3857 to_4326 gdf r = Some res"
  proof (cases gdf)
    case Nil
    with ret show ?thesis by (simp add: returns_def polygon_binning_to_points_def)
  next
    case (Cons poly rest)
    show ?thesis
    proof (cases "bounds (map to_3857 poly)")
      case None
      with ret Cons show ?thesis
        by (simp add: returns_def polygon_binning_to_points_def grid_points_of_def)
    next
      case (Some b)
      obtain minx miny maxx maxy where b: "b = Box minx miny maxx maxy" by (cases b)
      with ret Cons Some obtain s where
        run: "(step (map to_3857 poly) r (Box minx miny maxx maxy))\<^sup>*\<^sup>*
                (At_outer, State minx miny []) (Finished, s)"
        and res: "res = Inr (map to_4326 (grid_points s))"
        by (auto simp: returns_def)
      from run_is_loop [OF run] have
        "outer_loop (map to_3857 poly) r (Box minx miny maxx maxy) (State minx miny []) = Some s"
        by simp
      with res Cons Some b show ?thesis
        by (simp add: polygon_binning_to_points_def grid_points_of_def)
    qed
  qed
qed


subsection \<open>Bounds on the Web Mercator projection\<close>

lemma pi_ge_three: "3 \<le> pi"
proof -
  have "sin (pi / 6) \<le> pi / 6" by (rule sin_x_le_x) simp
  then show ?thesis by (simp add: sin_30)
qed

lemma sin_lower:
  fixes x :: real
  assumes "0 \<le> x"
  shows "x - x ^ 3 / 6 - x ^ 5 / 120 \<le> sin x"
proof -
  have "(\<Sum>m<5. sin_coeff m * x ^ m) = x - x ^ 3 / 6"
    by (simp add: eval_nat_numeral lessThan_Suc sin_coeff_Suc cos_coeff_Suc)
  with Maclaurin_sin_bound [of x 5] have "\<bar>sin x - (x - x ^ 3 / 6)\<bar> \<le> inverse (fact 5) * \<bar>x\<bar> ^ 5"
    by simp
  moreover have "inverse (fact 5) * \<bar>x\<bar> ^ 5 = x ^ 5 / 120"
    using assms by (simp add: fact_numeral)
  ultimately show ?thesis by linarith
qed

lemma pi_less_33: "pi < 33 / 10"
proof -
  have "sin (pi / 6) < sin (11 / 20)"
    using sin_lower [of "11 / 20"] by (simp add: sin_30 power_divide)
  moreover have "11 / 20 \<le> pi / 2" using pi_ge_two by simp
  moreover have "- (pi / 2) \<le> pi / 6" "pi / 6 \<le> pi / 2" "- (pi / 2) \<le> 11 / 20"
    using pi_ge_two by simp_all
  ultimately have "pi / 6 < 11 / 20"
    by (simp add: sin_mono_less_eq)
  then show ?thesis by simp
qed

lemma exp_upper:
  fixes x :: real
  assumes "0 \<le> x" "x \<le> 1"
  shows "exp x \<le> (1 + x + x\<^sup>2 / 2 + x ^ 3 / 6) / (1 - x ^ 4 / 24)"
proof -
  obtain t where t: "\<bar>t\<bar> \<le> \<bar>x\<bar>"
    and e: "exp x = (\<Sum>m<4. (x ^ m) / fact m) + (exp t / fact 4) * x ^ 4"
    using Maclaurin_exp_le [of x 4] by blast
  have s: "(\<Sum>m<4. (x ^ m) / fact m) = 1 + x + x\<^sup>2 / 2 + x ^ 3 / 6"
    by (simp add: eval_nat_numeral lessThan_Suc fact_numeral)
  from t assms have "exp t \<le> exp x" by simp
  then have "(exp t / fact 4) * x ^ 4 \<le> (exp x / fact 4) * x ^ 4"
    using assms by (intro mult_right_mono divide_right_mono) simp_all
  with e s have "exp x \<le> 1 + x + x\<^sup>2 / 2 + x ^ 3 / 6 + exp x * (x ^ 4 / 24)"
    by (simp add: fact_numeral)
  then have "exp x * (1 - x ^ 4 / 24) \<le> 1 + x + x\<^sup>2 / 2 + x ^ 3 / 6"
    by (simp add: algebra_simps)
  moreover have "x ^ 4 \<le> 1" using assms by (simp add: power_le_one)
  then have "0 < 1 - x ^ 4 / 24" by simp
  ultimately show ?thesis by (simp add: pos_le_divide_eq)
qed

lemma sqrt3_bounds: "1732 / 1000 \<le> sqrt 3" "sqrt 3 \<le> 1733 / 1000"
  by (rule real_le_rsqrt, simp add: power2_eq_square) (rule real_le_lsqrt, simp_all add: power2_eq_square)

lemma arsinh_sqrt3: "arsinh (sqrt 3) = ln (2 + sqrt 3)"
proof -
  have "sqrt 4 = 2" using real_sqrt_abs [of 2] by simp
  then show ?thesis by (simp add: arsinh_real_def add.commute)
qed

lemma arsinh_sqrt3_lower: "32 / 25 \<le> arsinh (sqrt 3)"
proof -
  have "exp (32 / 25 :: real) = exp (real 2 * (16 / 25))" by simp
  also have "\<dots> = exp (16 / 25) ^ 2" by (rule exp_of_nat_mult)
  finally have e: "exp (32 / 25 :: real) = exp (16 / 25) ^ 2" .
  have "exp (16 / 25 :: real) \<le> 1902 / 1000"
    using exp_upper [of "16 / 25"] by (simp add: power_divide eval_nat_numeral)
  moreover have "0 \<le> exp (16 / 25 :: real)" by simp
  ultimately have "exp (16 / 25 :: real) ^ 2 \<le> (1902 / 1000) ^ 2"
    by (rule power_mono)
  with e have "exp (32 / 25 :: real) \<le> 3732 / 1000" by (simp add: power2_eq_square)
  with sqrt3_bounds(1) have "exp (32 / 25 :: real) \<le> 2 + sqrt 3" by simp
  then show ?thesis
    unfolding arsinh_sqrt3 by (subst ln_ge_iff) (simp_all add: add_pos_pos)
qed

lemma sinh_ge_one:
  assumes "89 / 100 \<le> t"
  shows "1 \<le> sinh (t :: real)"
proof -
  have mono: "sinh (89 / 100 :: real) \<le> sinh t" using assms by simp
  have "1 \<le> sinh (89 / 100 :: real)"
  proof -
    let ?q = "89 / 400 :: real"
    have "exp (89 / 100) = exp (real 4 * ?q)" by simp
    also have "\<dots> = exp ?q ^ 4" by (rule exp_of_nat_mult)
    finally have e: "exp (89 / 100) = exp ?q ^ 4" .
    have "1 + ?q + ?q\<^sup>2 / 2 \<le> exp ?q" by (rule exp_lower_Taylor_quadratic) simp
    then have "(1 + ?q + ?q\<^sup>2 / 2) ^ 4 \<le> exp ?q ^ 4" by (rule power_mono) simp
    with e have "242 / 100 \<le> exp (89 / 100 :: real)"
      by (simp add: power_divide eval_nat_numeral)
    then have E: "242 / 100 \<le> exp (89 / 100 :: real)" .
    then have "exp (- (89 / 100) :: real) \<le> 100 / 242"
      by (simp add: exp_minus field_simps)
    with E show ?thesis by (simp add: sinh_field_def)
  qed
  then show ?thesis using mono by (rule order_trans)
qed

subsection \<open>Right triangles\<close>

lemma edges_triangle: "edges [p, q, s] = [(p, q), (q, s), (s, p)]"
  by (simp add: edges_def)

lemma bounds_right_triangle:
  assumes "0 < X" "0 < Y"
  shows "bounds [(0, 0), (X, 0), (0, Y)] = Some (Box 0 0 X Y)"
  using assms by (simp add: bounds_def min_def max_def)

lemma contains_right_triangle:
  assumes "0 < X" "0 < Y" "0 < a" "0 < b" "a * Y + b * X < X * Y"
  shows "contains [(0, 0), (X, 0), (0, Y)] (a, b)"
proof -
  have bY: "b < Y"
  proof (rule ccontr)
    assume "\<not> b < Y"
    then have "X * Y \<le> b * X" using assms(1) by (simp add: mult.commute)
    moreover have "0 < a * Y" using assms by simp
    ultimately show False using assms(5) by linarith
  qed
  have c2: "a < X + b * (0 - X) / Y"
  proof -
    have "(a * Y + b * X) / Y < X"
      using assms(2,5) by (simp add: pos_divide_less_eq)
    moreover have "(a * Y + b * X) / Y = a + b * X / Y"
      using assms(2) by (simp add: add_divide_distrib)
    ultimately show ?thesis by simp
  qed
  have nb: "\<not> on_boundary [(0, 0), (X, 0), (0, Y)] (a, b)"
    using assms by (auto simp: on_boundary_def edges_triangle on_segment_def orient_def algebra_simps)
  have "filter (\<lambda>e. crosses (fst e) (snd e) (a, b)) (edges [(0, 0), (X, 0), (0, Y)]) =
        [((X, 0), (0, Y))]"
    using assms bY c2 by (simp add: edges_triangle crosses_def)
  with nb show ?thesis by (simp add: contains_def)
qed

lemma outside_right_triangle:
  assumes "0 < X" "0 < Y" "0 < a" "0 < b" "X * Y < a * Y + b * X"
  shows "\<not> contains [(0, 0), (X, 0), (0, Y)] (a, b)"
    and "\<not> on_boundary [(0, 0), (X, 0), (0, Y)] (a, b)"
proof -
  have c2: "\<not> a < X + b * (0 - X) / Y"
  proof -
    have "X < (a * Y + b * X) / Y"
      using assms(2,5) by (simp add: pos_less_divide_eq)
    moreover have "(a * Y + b * X) / Y = a + b * X / Y"
      using assms(2) by (simp add: add_divide_distrib)
    ultimately show ?thesis by simp
  qed
  show "\<not> on_boundary [(0, 0), (X, 0), (0, Y)] (a, b)"
    using assms by (auto simp: on_boundary_def edges_triangle on_segment_def orient_def algebra_simps)
  have "filter (\<lambda>e. crosses (fst e) (snd e) (a, b)) (edges [(0, 0), (X, 0), (0, Y)]) = []"
    using assms c2 by (simp add: edges_triangle crosses_def)
  then show "\<not> contains [(0, 0), (X, 0), (0, Y)] (a, b)" by (simp add: contains_def)
qed

lemma big_triangle_projected:
  "map to_crs_3857 big_triangle =
     [(0, 0), (semi_major_axis * pi, 0), (0, semi_major_axis * arsinh (sqrt 3))]"
proof -
  have "60 * pi / 180 = pi / 3" by simp
  then have "tan (60 * pi / 180) = sqrt 3" by (simp only: tan_60)
  then show ?thesis by (simp add: big_triangle_def to_crs_3857_def)
qed

subsection \<open>The large triangle at a resolution of 5700 km\<close>

lemma mercator_extent:
  "3 * semi_major_axis \<le> semi_major_axis * pi"
  "32 / 25 * semi_major_axis \<le> semi_major_axis * arsinh (sqrt 3)"
  using pi_ge_three arsinh_sqrt3_lower by (simp_all add: semi_major_axis_def)

lemma big_triangle_bounds:
  "bounds (map to_crs_3857 big_triangle) =
     Some (Box 0 0 (semi_major_axis * pi) (semi_major_axis * arsinh (sqrt 3)))"
proof -
  have "0 < semi_major_axis * pi" "0 < semi_major_axis * arsinh (sqrt 3)"
    using mercator_extent by (simp_all add: semi_major_axis_def)
  then show ?thesis
    unfolding big_triangle_projected by (rule bounds_right_triangle)
qed

lemma big_triangle_node_inside:
  "contains (map to_crs_3857 big_triangle) (5700000, 5700000)"
proof -
  let ?X = "semi_major_axis * pi" and ?Y = "semi_major_axis * arsinh (sqrt 3)"
  have X: "19134411 \<le> ?X" and Y: "8164015 \<le> ?Y"
    using mercator_extent by (simp_all add: semi_major_axis_def)
  have "(19134411 - 5700000) * (8164015 - 5700000) \<le> (?X - 5700000) * (?Y - 5700000)"
    using X Y by (intro mult_mono) simp_all
  then have "5700000 * ?Y + 5700000 * ?X < ?X * ?Y"
    by (simp add: algebra_simps)
  moreover have "0 < ?X" "0 < ?Y" using X Y by simp_all
  ultimately show ?thesis
    unfolding big_triangle_projected
    by (intro contains_right_triangle) simp_all
qed

lemma big_triangle_node_on_lattice:
  "(5700000, 5700000) \<in> set (lattice_nodes (map to_crs_3857 big_triangle) 5700000)"
proof -
  have "(5700000 :: real) < semi_major_axis * pi"
    "(5700000 :: real) < semi_major_axis * arsinh (sqrt 3)"
    using mercator_extent by (simp_all add: semi_major_axis_def)
  then have "\<exists>i j. (5700000 :: real, 5700000 :: real) = (0 + real i * 5700000, 0 + real j * 5700000) \<and>
      0 + real i * 5700000 < semi_major_axis * pi \<and>
      0 + real j * 5700000 < semi_major_axis * arsinh (sqrt 3)"
    by (intro exI [of _ 1]) simp
  then show ?thesis
    by (simp add: lattice_nodes_def big_triangle_bounds set_lattice)
qed

lemma big_triangle_edge_node:
  "(5700000, 0) \<in> set (lattice_nodes (map to_crs_3857 big_triangle) 5700000)"
  "on_boundary (map to_crs_3857 big_triangle) (5700000, 0)"
proof -
  have x: "(5700000 :: real) < semi_major_axis * pi"
    and y: "(0 :: real) < semi_major_axis * arsinh (sqrt 3)"
    using mercator_extent by (simp_all add: semi_major_axis_def)
  then have "\<exists>i j. (5700000 :: real, 0 :: real) = (0 + real i * 5700000, 0 + real j * 5700000) \<and>
      0 + real i * 5700000 < semi_major_axis * pi \<and>
      0 + real j * 5700000 < semi_major_axis * arsinh (sqrt 3)"
    by (intro exI [of _ 1] exI [of _ 0]) simp
  then show "(5700000, 0) \<in> set (lattice_nodes (map to_crs_3857 big_triangle) 5700000)"
    by (simp add: lattice_nodes_def big_triangle_bounds set_lattice)
  have "on_segment (0, 0) (semi_major_axis * pi, 0) (5700000, 0)"
    using x by (simp add: on_segment_def orient_def)
  then show "on_boundary (map to_crs_3857 big_triangle) (5700000, 0)"
    unfolding big_triangle_projected by (auto simp: on_boundary_def edges_triangle)
qed

lemma big_triangle_node_outside:
  "\<not> contains big_triangle (to_crs_4326 (5700000, 5700000))"
  "\<not> on_boundary big_triangle (to_crs_4326 (5700000, 5700000))"
proof -
  define t :: real where "t = 5700000 / semi_major_axis"
  define lon lat where "lon = t * 180 / pi" and "lat = arctan (sinh t) * 180 / pi"
  have t: "89 / 100 \<le> t" by (simp add: t_def semi_major_axis_def)
  have "arctan 1 \<le> arctan (sinh t)"
    using sinh_ge_one [OF t] by (simp only: arctan_le_iff)
  then have "45 * pi \<le> arctan (sinh t) * 180"
    by (simp add: arctan_one)
  then have lat: "45 \<le> lat" by (simp add: lat_def pos_le_divide_eq)
  have "45 * pi < 45 * (33 / 10)" using pi_less_33 by simp
  also have "\<dots> \<le> t * 180" using t by simp
  finally have lon: "45 < lon" by (simp add: lon_def pos_less_divide_eq)
  from lat lon have out: "180 * 60 < lon * 60 + lat * 180" by simp
  have q: "to_crs_4326 (5700000, 5700000) = (lon, lat)"
    by (simp add: to_crs_4326_def lon_def lat_def t_def)
  from lat lon out show "\<not> contains big_triangle (to_crs_4326 (5700000, 5700000))"
    unfolding q big_triangle_def by (intro outside_right_triangle(1)) simp_all
  from lat lon out show "\<not> on_boundary big_triangle (to_crs_4326 (5700000, 5700000))"
    unfolding q big_triangle_def by (intro outside_right_triangle(2)) simp_all
qed


lemma big_triangle_run:
  "polygon_binning_to_points to_crs_3857 to_crs_4326 [big_triangle] 5700000 =
     Some (Inr big_triangle_points)"
  by (simp add: binning_closed big_triangle_points_def)

lemma big_triangle_point_returned:
  "to_crs_4326 (5700000, 5700000) \<in> set big_triangle_points"
  using big_triangle_node_inside big_triangle_node_on_lattice
  by (simp add: big_triangle_points_def)


section \<open>Properties of the surface interpolator\<close>

subsection \<open>Float64 rounding\<close>

text \<open>
  Rounding moves a number by at most half a unit in the last place: by its magnitude
  times \<open>2 ^ -53\<close>, or by \<open>2 ^ -1075\<close> among the subnormal numbers.
\<close>

lemma round_even_error: "\<bar>of_int (round_even q) - q\<bar> \<le> 1 / 2"
  unfolding round_even_def Let_def by (auto; linarith)

lemma round_even_unique:
  assumes "\<bar>q - of_int n\<bar> < 1 / 2"
  shows "round_even q = n"
proof -
  have "\<bar>of_int (round_even q) - q\<bar> \<le> 1 / 2" by (rule round_even_error)
  with assms have "\<bar>(of_int (round_even q) :: real) - of_int n\<bar> < 1" by linarith
  then have "\<bar>(of_int (round_even q - n) :: real)\<bar> < 1" by simp
  then have "\<bar>round_even q - n\<bar> < 1" by linarith
  then show ?thesis by simp
qed

lemma ulp_pos: "0 < ulp x"
  by (simp add: ulp_def)

lemma exponent_eq:
  assumes "2 powr of_int e \<le> \<bar>x\<bar>" "\<bar>x\<bar> < 2 powr (of_int e + 1)" "- 1022 \<le> e"
  shows "exponent x = e"
proof -
  have pos: "0 < \<bar>x\<bar>" using assms(1) by (smt (verit) powr_gt_zero)
  have "of_int e \<le> log 2 \<bar>x\<bar>" using assms(1) pos by (simp add: le_log_iff)
  moreover have "log 2 \<bar>x\<bar> < of_int e + 1" using assms(2) pos by (simp add: log_less_iff)
  ultimately have "\<lfloor>log 2 \<bar>x\<bar>\<rfloor> = e" by (simp add: floor_eq_iff)
  with assms(3) show ?thesis by (simp add: exponent_def)
qed

lemma round64_error: "\<bar>round64 x - x\<bar> \<le> \<bar>x\<bar> / 2 ^ 53 + 1 / 2 ^ 1075"
proof (cases "x = 0")
  case True
  then show ?thesis by (simp add: round64_def)
next
  case False
  have "\<bar>of_int (round_even (x / ulp x)) - x / ulp x\<bar> \<le> 1 / 2" by (rule round_even_error)
  then have "\<bar>of_int (round_even (x / ulp x)) - x / ulp x\<bar> * ulp x \<le> 1 / 2 * ulp x"
    using ulp_pos [of x] by (intro mult_right_mono) simp_all
  moreover have "\<bar>of_int (round_even (x / ulp x)) - x / ulp x\<bar> * ulp x = \<bar>round64 x - x\<bar>"
  proof -
    have "(of_int (round_even (x / ulp x)) - x / ulp x) * ulp x = round64 x - x"
      using ulp_pos [of x] False by (simp add: round64_def left_diff_distrib)
    then have "\<bar>round64 x - x\<bar> = \<bar>of_int (round_even (x / ulp x)) - x / ulp x\<bar> * \<bar>ulp x\<bar>"
      by (simp only: abs_mult [symmetric])
    with ulp_pos [of x] show ?thesis by simp
  qed
  ultimately have half: "\<bar>round64 x - x\<bar> \<le> ulp x / 2" by simp
  show ?thesis
  proof (cases "\<lfloor>log 2 \<bar>x\<bar>\<rfloor> \<le> - 1022")
    case True
    then have "exponent x = - 1022" by (simp add: exponent_def)
    then have "ulp x / 2 = 1 / 2 ^ 1075"
      by (simp add: ulp_def powr_minus divide_simps flip: power_Suc)
    with half show ?thesis by (smt (verit) divide_nonneg_nonneg abs_ge_zero zero_le_power)
  next
    case False
    then have e: "exponent x = \<lfloor>log 2 \<bar>x\<bar>\<rfloor>" by (simp add: exponent_def)
    have "(2 :: real) powr of_int \<lfloor>log 2 \<bar>x\<bar>\<rfloor> \<le> 2 powr log 2 \<bar>x\<bar>"
      by (intro powr_mono) simp_all
    also have "\<dots> = \<bar>x\<bar>" using \<open>x \<noteq> 0\<close> by simp
    finally have "2 powr of_int \<lfloor>log 2 \<bar>x\<bar>\<rfloor> \<le> \<bar>x\<bar>" .
    moreover have "ulp x = 2 powr of_int \<lfloor>log 2 \<bar>x\<bar>\<rfloor> / 2 ^ 52"
      by (simp add: ulp_def e powr_diff)
    ultimately have "ulp x / 2 \<le> \<bar>x\<bar> / 2 ^ 53"
      by (simp add: divide_simps)
    with half show ?thesis by (smt (verit) divide_nonneg_nonneg zero_le_power)
  qed
qed


lemma float64_eval:
  assumes "2 powr of_int e \<le> \<bar>x\<bar>" "\<bar>x\<bar> < 2 powr (of_int e + 1)" "- 1022 \<le> e"
    and "\<bar>x / 2 powr of_int (e - 52) - of_int n\<bar> < 1 / 2"
    and "\<bar>real_of_int n * 2 powr of_int (e - 52)\<bar> < 2 ^ 1024"
  shows "float64 x = Some (of_int n * 2 powr of_int (e - 52))"
proof -
  have "x \<noteq> 0" using assms(1) by (smt (verit) powr_gt_zero)
  moreover have "ulp x = 2 powr of_int (e - 52)"
    using exponent_eq [OF assms(1-3)] by (simp add: ulp_def)
  moreover have "round_even (x / 2 powr of_int (e - 52)) = n"
    using assms(4) by (rule round_even_unique)
  ultimately have "round64 x = of_int n * 2 powr of_int (e - 52)"
    by (simp add: round64_def)
  with assms(5) show ?thesis by (simp add: float64_def)
qed

lemma float64_zero: "float64 0 = Some 0"
  by (simp add: float64_def round64_def)

lemma float64_one: "float64 1 = Some 1"
  using float64_eval [of 0 1 "2 ^ 52"] by (simp add: powr_minus)

lemma float64_step: "float64 (1 / 499) = Some (4620927874175739 / 2305843009213693952)"
  using float64_eval [of "- 9" "1 / 499" 4620927874175739]
  by (simp add: powr_minus)

lemma float64_last:
  "float64 (2305843009213693761 / 2305843009213693952) =
     Some (9007199254740991 / 9007199254740992)"
  using float64_eval [of "- 1" "2305843009213693761 / 2305843009213693952" 9007199254740991]
  by (simp add: powr_minus)

lemma float64_below_one:
  "float64 (9007199254740991 / 9007199254740992) = Some (9007199254740991 / 9007199254740992)"
  using float64_eval [of "- 1" "9007199254740991 / 9007199254740992" 9007199254740991]
  by (simp add: powr_minus)

lemma float64_finite:
  assumes "\<bar>x\<bar> \<le> 3 * 2 ^ 1022"
  shows "float64 x = Some (round64 x)"
proof -
  have "\<bar>round64 x - x\<bar> \<le> \<bar>x\<bar> / 2 ^ 53 + 1 / 2 ^ 1075" by (rule round64_error)
  with assms have "\<bar>round64 x\<bar> < 2 ^ 1024" by simp
  then show ?thesis by (simp add: float64_def)
qed

text \<open>
  The four roundings of the last node of an axis, as linear bounds.
\<close>

lemma error_chain: fixes S B E1 Md E2 Ms E3 G M4 E4 h :: real
  assumes S: "0 \<le> S" "B \<le> S" and h: "0 \<le> h"
    and e1: "E1 \<le> S / 2 ^ 53 + h"
    and Md: "Md \<le> S + E1"
    and e2: "E2 \<le> Md / 499 / 2 ^ 53 + h"
    and Ms: "Ms \<le> Md / 499 + E2"
    and e3: "E3 \<le> 499 * Ms / 2 ^ 53 + h"
    and G: "G \<le> E1 + 499 * E2 + E3" and M4: "M4 \<le> B + G"
    and e4: "E4 \<le> M4 / 2 ^ 53 + h"
  shows "E4 + G \<le> S / 2 ^ 50 + 1024 * h"
    and "Md \<le> 2 * S + h" and "499 * Ms \<le> 3 * S + 501 * h" and "M4 \<le> 2 * S + 1003 * h"
proof -
  show md: "Md \<le> 2 * S + h" using S(1) e1 Md by simp
  have e2': "499 * E2 \<le> 2 * S / 2 ^ 53 + 500 * h" using md e2 h by simp
  show ms: "499 * Ms \<le> 3 * S + 501 * h" using md e2' Ms S(1) by simp
  have e3': "E3 \<le> 3 * S / 2 ^ 53 + 502 * h" using ms e3 h by simp
  have g: "G \<le> 6 * S / 2 ^ 53 + 1003 * h" using e1 e2' e3' G by simp
  show m4: "M4 \<le> 2 * S + 1003 * h" using g M4 S by simp
  have e4': "E4 \<le> 2 * S / 2 ^ 53 + 2 * h" using m4 e4 h by simp
  from g e4' show "E4 + G \<le> S / 2 ^ 50 + 1024 * h" using h by simp
qed

subsection \<open>The lattice and the loop over the measures\<close>

lemma nth_concat_uniform:
  assumes "\<And>i. i < n \<Longrightarrow> length (f i) = m" "i < n" "j < m"
  shows "concat (map f [0..<n]) ! (i * m + j) = f i ! j"
  using assms
proof (induction n)
  case 0
  then show ?case by simp
next
  case (Suc n)
  have len: "length (concat (map f [0..<n])) = n * m"
    using Suc.prems(1) by (induction n) simp_all
  show ?case
  proof (cases "i < n")
    case True
    then have "Suc i * m \<le> n * m" by (intro mult_le_mono1) simp
    moreover have "i * m + j < Suc i * m" using Suc.prems(3) by simp
    ultimately have "i * m + j < n * m" by (rule less_le_trans [rotated])
    with True Suc show ?thesis by (simp add: nth_append len)
  next
    case False
    with Suc.prems(2) have "i = n" by simp
    with Suc.prems show ?thesis by (simp add: nth_append len)
  qed
qed

lemma length_concat_uniform:
  assumes "\<And>i. i < n \<Longrightarrow> length (f i) = m"
  shows "length (concat (map f [0..<n])) = n * m"
  using assms by (induction n) simp_all

lemma length_mgrid: "length (mgrid b) = grid_size * grid_size"
proof (cases b)
  case None
  then show ?thesis by (simp add: mgrid_def)
next
  case (Some bb)
  then show ?thesis
    by (cases bb) (simp add: mgrid_def length_concat_uniform)
qed

lemma nth_mgrid:
  assumes "i < grid_size" "j < grid_size"
  shows "mgrid (Some (Box xmin ymin xmax ymax)) ! (i * grid_size + j) =
         grid_point (axis xmin xmax i) (axis ymin ymax j)"
  using assms by (simp add: mgrid_def nth_concat_uniform)

text \<open>
  The first node of an axis is its start, exactly.  The last node is the stop up to the
  four roundings of \<open>499 * ((stop - start) / 499) + start\<close>.
\<close>

lemma axis_first:
  assumes "is_float64 a" "\<bar>a\<bar> \<le> 2 ^ 1020" "\<bar>b\<bar> \<le> 2 ^ 1020"
  shows "axis a b 0 = Some a"
proof -
  define d where "d = round64 (b - a)"
  have "\<bar>d - (b - a)\<bar> \<le> \<bar>b - a\<bar> / 2 ^ 53 + 1 / 2 ^ 1075"
    unfolding d_def by (rule round64_error)
  moreover define D where "D = \<bar>b - a\<bar>"
  moreover have "D \<le> \<bar>a\<bar> + \<bar>b\<bar>" unfolding D_def by linarith
  moreover have "\<bar>d\<bar> \<le> D + \<bar>d - (b - a)\<bar>" unfolding D_def by linarith
  ultimately have f1: "D \<le> 3 * 2 ^ 1022" and "\<bar>d\<bar> \<le> 3 * 2 ^ 1022"
    using assms(2,3) by simp_all
  then have f2: "\<bar>d / 499\<bar> \<le> 3 * 2 ^ 1022" by simp
  from f1 have "float64 (b - a) = Some d"
    unfolding D_def d_def by (rule float64_finite)
  with float64_finite [OF f2] assms(1) show ?thesis
    by (simp add: axis_def grid_size_def float64_zero is_float64_def)
qed

lemma axis_last_error:
  assumes "\<bar>a\<bar> \<le> 2 ^ 1020" "\<bar>b\<bar> \<le> 2 ^ 1020"
  shows "\<exists>x. axis a b (grid_size - 1) = Some x \<and>
             \<bar>x - b\<bar> \<le> (\<bar>a\<bar> + \<bar>b\<bar>) / 2 ^ 50 + 1 / 2 ^ 1065"
proof -
  define d where "d = round64 (b - a)"
  define s where "s = round64 (d / 499)"
  define p where "p = round64 (499 * s)"
  define x where "x = round64 (p + a)"
  define B S where "B = \<bar>b\<bar>" and "S = \<bar>a\<bar> + \<bar>b\<bar>"
  define E1 E2 E3 E4 where "E1 = \<bar>d - (b - a)\<bar>" and "E2 = \<bar>s - d / 499\<bar>"
    and "E3 = \<bar>p - 499 * s\<bar>" and "E4 = \<bar>x - (p + a)\<bar>"
  define Md Ms G M4 where "Md = \<bar>d\<bar>" and "Ms = \<bar>s\<bar>" and "G = \<bar>p + a - b\<bar>"
    and "M4 = \<bar>p + a\<bar>"
  have S: "0 \<le> S" "B \<le> S" "S \<le> 2 ^ 1021"
    using assms by (simp_all add: B_def S_def)
  have D: "\<bar>b - a\<bar> \<le> S" unfolding S_def by linarith
  have "E1 \<le> \<bar>b - a\<bar> / 2 ^ 53 + 1 / 2 ^ 1075"
    unfolding E1_def d_def by (rule round64_error)
  with D have e1: "E1 \<le> S / 2 ^ 53 + 1 / 2 ^ 1075" by simp
  have "Md \<le> \<bar>b - a\<bar> + E1" unfolding Md_def E1_def by linarith
  with D have Md: "Md \<le> S + E1" by simp
  have e2: "E2 \<le> Md / 499 / 2 ^ 53 + 1 / 2 ^ 1075"
    using round64_error [of "d / 499"] unfolding E2_def Md_def s_def by simp
  have Ms: "Ms \<le> Md / 499 + E2" unfolding Ms_def Md_def E2_def by (simp; linarith)
  have e3: "E3 \<le> 499 * Ms / 2 ^ 53 + 1 / 2 ^ 1075"
    using round64_error [of "499 * s"] unfolding E3_def Ms_def p_def by (simp add: abs_mult)
  have "499 * (s - d / 499) = 499 * s - d" by simp
  then have "\<bar>499 * s - d\<bar> = 499 * E2"
    unfolding E2_def by (simp only: abs_mult [symmetric])
  moreover have "\<bar>p + a - b\<bar> \<le> \<bar>d - (b - a)\<bar> + \<bar>499 * s - d\<bar> + \<bar>p - 499 * s\<bar>"
    by linarith
  ultimately have G: "G \<le> E1 + 499 * E2 + E3" unfolding G_def E1_def E3_def by simp
  have M4: "M4 \<le> B + G" unfolding M4_def B_def G_def by linarith
  have e4: "E4 \<le> M4 / 2 ^ 53 + 1 / 2 ^ 1075"
    unfolding E4_def M4_def x_def by (rule round64_error)
  have h: "(0 :: real) \<le> 1 / 2 ^ 1075" by simp
  note chain = error_chain [OF S(1,2) h e1 Md e2 Ms e3 G M4 e4]
  have f1: "\<bar>b - a\<bar> \<le> 3 * 2 ^ 1022" using D S(3) by simp
  have "Md \<le> 3 * 2 ^ 1022" using chain(2) S(3) by simp
  then have f2: "\<bar>d / 499\<bar> \<le> 3 * 2 ^ 1022" by (simp add: Md_def)
  have "499 * Ms \<le> 3 * 2 ^ 1022" using chain(3) S(3) by simp
  then have f3: "\<bar>499 * s\<bar> \<le> 3 * 2 ^ 1022" by (simp add: Ms_def abs_mult)
  have "M4 \<le> 3 * 2 ^ 1022" using chain(4) S(3) by simp
  then have f4: "\<bar>p + a\<bar> \<le> 3 * 2 ^ 1022" by (simp add: M4_def)
  have "axis a b (grid_size - 1) = Some x"
    using float64_finite [OF f1] float64_finite [OF f2] float64_finite [OF f3]
      float64_finite [OF f4]
    by (simp add: axis_def grid_size_def d_def s_def p_def x_def)
  moreover have "\<bar>x - b\<bar> \<le> E4 + G" unfolding E4_def G_def by linarith
  moreover have "E4 + G \<le> S / 2 ^ 50 + 1 / 2 ^ 1065" using chain(1) by simp
  ultimately show ?thesis unfolding S_def by fastforce
qed

text \<open>
  On the box from 0 to 1 the step \<open>1 / 499\<close> is rounded down, and the last node is the
  float64 number just below 1.
\<close>

lemma axis_unit_first: "axis 0 1 0 = Some 0"
  by (simp add: axis_def grid_size_def float64_one float64_step float64_zero)

lemma axis_unit_last: "axis 0 1 499 = Some (9007199254740991 / 9007199254740992)"
  by (simp add: axis_def grid_size_def float64_one float64_step float64_last float64_below_one)

lemma total_bounds_nonempty:
  assumes "pts \<noteq> []"
  shows "total_bounds pts =
         Some (Box (Min (fst ` set pts)) (Min (snd ` set pts))
                   (Max (fst ` set pts)) (Max (snd ` set pts)))"
  using assms by (simp add: total_bounds_def bounds_def)

lemma in_set_dict_set:
  assumes "c \<in> set (dict_set k v al)"
  shows "c = (k, v) \<or> c \<in> set al"
  using assms by (induction al) (auto split: if_splits)

lemma map_of_dict_set:
  "map_of (dict_set k v al) k' = (if k' = k then Some v else map_of al k')"
  by (induction al) auto

lemma griddata_Inr:
  assumes "griddata pts vals xi = Inr vs"
  shows "length vals = length pts" "pts \<noteq> []" "\<not> degenerate pts"
    "vs = map (interpolate pts vals) xi"
  using assms by (auto simp: griddata_def split: if_splits)

lemma measure_loop_columns:
  assumes "measure_loop gdf grid ms acc = Inr data" "c \<in> set data"
  shows "c \<in> set acc \<or>
         (\<exists>vals. map_of (columns gdf) (fst c) = Some vals \<and>
                 griddata (geometry gdf) vals grid = Inr (snd c))"
  using assms
proof (induction ms arbitrary: acc)
  case Nil
  then show ?case by simp
next
  case (Cons name rest)
  from Cons.prems(1) obtain vals vs where
    vals: "map_of (columns gdf) name = Some vals"
    and vs: "griddata (geometry gdf) vals grid = Inr vs"
    and rest: "measure_loop gdf grid rest (dict_set name vs acc) = Inr data"
    by (auto split: option.splits sum.splits)
  from Cons.IH [OF rest Cons.prems(2)] show ?case
  proof
    assume "c \<in> set (dict_set name vs acc)"
    then have "c = (name, vs) \<or> c \<in> set acc" by (rule in_set_dict_set)
    with vals vs show ?thesis by auto
  qed simp
qed

lemma measure_loop_keeps:
  assumes "measure_loop gdf grid ms acc = Inr data"
    and "map_of acc name = Some vs"
    and "map_of (columns gdf) name = Some vals"
    and "griddata (geometry gdf) vals grid = Inr vs"
  shows "map_of data name = Some vs"
  using assms(1,2)
proof (induction ms arbitrary: acc)
  case Nil
  then show ?case by simp
next
  case (Cons n1 rest)
  from Cons.prems(1) obtain vals1 vs1 where
    vals1: "map_of (columns gdf) n1 = Some vals1"
    and vs1: "griddata (geometry gdf) vals1 grid = Inr vs1"
    and rest: "measure_loop gdf grid rest (dict_set n1 vs1 acc) = Inr data"
    by (auto split: option.splits sum.splits)
  have "map_of (dict_set n1 vs1 acc) name = Some vs"
    using Cons.prems(2) vals1 vs1 assms(3,4) by (auto simp: map_of_dict_set)
  with rest show ?case by (rule Cons.IH)
qed

lemma measure_loop_lookup:
  assumes "measure_loop gdf grid ms acc = Inr data" "name \<in> set ms"
  shows "\<exists>vals vs. map_of (columns gdf) name = Some vals \<and>
           griddata (geometry gdf) vals grid = Inr vs \<and> map_of data name = Some vs"
  using assms
proof (induction ms arbitrary: acc)
  case Nil
  then show ?case by simp
next
  case (Cons n1 rest)
  from Cons.prems(1) obtain vals1 vs1 where
    vals1: "map_of (columns gdf) n1 = Some vals1"
    and vs1: "griddata (geometry gdf) vals1 grid = Inr vs1"
    and rest: "measure_loop gdf grid rest (dict_set n1 vs1 acc) = Inr data"
    by (auto split: option.splits sum.splits)
  show ?case
  proof (cases "name = n1")
    case True
    have "map_of (dict_set n1 vs1 acc) n1 = Some vs1" by (simp add: map_of_dict_set)
    from measure_loop_keeps [OF rest this vals1 vs1] vals1 vs1 True show ?thesis by blast
  next
    case False
    with Cons.prems(2) have "name \<in> set rest" by simp
    with rest show ?thesis by (rule Cons.IH)
  qed
qed

lemma interpolate_Inr:
  assumes "interpolate_point_measures gdf ms = Inr out"
  shows "grid_geometry out = mgrid (total_bounds (geometry gdf))"
    and "measure_loop gdf (mgrid (total_bounds (geometry gdf))) ms [] = Inr (grid_columns out)"
  using assms by (auto simp: interpolate_point_measures_def Let_def split: sum.splits)

lemma three_points_run:
  "interpolate_point_measures three_points [''temp''] = Inr three_points_surface"
proof -
  have "\<not> degenerate [(0, 0), (1, 0), (0, 1)]"
    by (simp add: degenerate_def orient_def)
  moreover have "total_bounds [(0, 0), (1, 0), (0, 1)] = Some (Box 0 0 1 1)"
    by (simp add: total_bounds_def bounds_def)
  ultimately show ?thesis
    by (simp add: interpolate_point_measures_def three_points_def three_points_surface_def
        griddata_def Let_def)
qed

lemma column_length:
  assumes "wf_frame gdf" "map_of (columns gdf) name = Some vals"
  shows "length vals = length (geometry gdf)"
proof -
  from assms(2) have "(name, vals) \<in> set (columns gdf)" by (rule map_of_SomeD)
  with assms(1) show ?thesis by (auto simp: wf_frame_def)
qed

lemma griddata_degenerate:
  assumes "degenerate pts" "pts \<noteq> []" "length vals = length pts"
  shows "griddata pts vals xi = Inl QhullError"
  using assms by (simp add: griddata_def)

lemma griddata_empty: "griddata [] vals xi = Inl ValueError"
  by (simp add: griddata_def)

lemma measure_loop_missing:
  assumes "wf_frame gdf" "geometry gdf \<noteq> []" "\<not> degenerate (geometry gdf)"
    and "name \<in> set ms" "map_of (columns gdf) name = None"
  shows "measure_loop gdf grid ms acc = Inl KeyError"
  using assms(4)
proof (induction ms arbitrary: acc)
  case Nil
  then show ?case by simp
next
  case (Cons n1 rest)
  show ?case
  proof (cases "map_of (columns gdf) n1")
    case None
    then show ?thesis by simp
  next
    case (Some vals)
    with assms(5) have "name \<noteq> n1" by auto
    with Cons.prems have "name \<in> set rest" by simp
    moreover have "griddata (geometry gdf) vals grid = Inr (map (interpolate (geometry gdf) vals) grid)"
      using assms(1-3) column_length [OF assms(1) Some] by (simp add: griddata_def)
    ultimately show ?thesis using Some Cons.IH by simp
  qed
qed

subsection \<open>Barycentric coordinates and the convex hull\<close>

lemma bary_sum: "orient q b c + orient a q c + orient a b q = orient a b c"
  by (simp add: orient_def algebra_simps)

lemma bary_fst:
  "orient q b c * fst a + orient a q c * fst b + orient a b q * fst c = orient a b c * fst q"
  by (simp add: orient_def algebra_simps)

lemma bary_snd:
  "orient q b c * snd a + orient a q c * snd b + orient a b q * snd c = orient a b c * snd q"
  by (simp add: orient_def algebra_simps)

lemma incircle_chord:
  "incircle p q s d = dot2 p q s * orient p q d - dot2 p q d * orient p q s"
  by (simp add: orient_def incircle_def dot2_def Let_def algebra_simps)

lemma incircle_bary:
  "orient a b c * incircle a b c p =
     orient p b c * orient a p c * dist2 a b +
     orient a p c * orient a b p * dist2 b c +
     orient p b c * orient a b p * dist2 a c"
  unfolding orient_def incircle_def dist2_def Let_def
  by algebra

lemma delaunay_set:
  "t \<in> set (delaunay pts) \<longleftrightarrow>
     (\<exists>i j k. t = (i, j, k) \<and> i < j \<and> j < k \<and> k < length pts \<and> is_delaunay pts t)"
proof
  assume "t \<in> set (delaunay pts)"
  then show "\<exists>i j k. t = (i, j, k) \<and> i < j \<and> j < k \<and> k < length pts \<and> is_delaunay pts t"
    by (auto simp: delaunay_def)
next
  assume "\<exists>i j k. t = (i, j, k) \<and> i < j \<and> j < k \<and> k < length pts \<and> is_delaunay pts t"
  then obtain i j k where t: "t = (i, j, k)" "i < j" "j < k" "k < length pts" "is_delaunay pts t"
    by blast
  then have "i \<in> {0..<length pts}" "j \<in> {Suc i..<length pts}" "k \<in> {Suc j..<length pts}"
    by simp_all
  then have "(i, j, k) \<in> (\<Union>i \<in> {0..<length pts}. \<Union>j \<in> {Suc i..<length pts}.
      (\<lambda>k. (i, j, k)) ` {Suc j..<length pts})"
    by blast
  with t(1,5) show "t \<in> set (delaunay pts)"
    by (simp add: delaunay_def)
qed

lemma find_simplex_Some:
  assumes "find_simplex pts q = Some t"
  shows "t \<in> set (delaunay pts)" "in_simplex pts q t"
  using assms by (auto simp: find_simplex_def find_Some_iff)

lemma find_simplex_None:
  "find_simplex pts q = None \<longleftrightarrow> (\<forall>t \<in> set (delaunay pts). \<not> in_simplex pts q t)"
  by (auto simp: find_simplex_def find_None_iff)

lemma weights_sum:
  fixes f :: "nat \<Rightarrow> real"
  assumes "i < n" "j < n" "k < n"
  shows "(\<Sum>l < n. ((if l = i then c1 else 0) + (if l = j then c2 else 0) +
                    (if l = k then c3 else 0)) * f l) = c1 * f i + c2 * f j + c3 * f k"
proof -
  have "(\<Sum>l < n. (if l = m then c else 0) * f l) = c * f m" if "m < n" for m c
  proof -
    have "(\<Sum>l < n. (if l = m then c else 0) * f l) = (\<Sum>l < n. if l = m then c * f l else 0)"
      by (intro sum.cong) auto
    also have "\<dots> = c * f m" using that by (simp add: sum.delta)
    finally show ?thesis .
  qed
  with assms show ?thesis by (simp add: distrib_right sum.distrib)
qed

lemma simplex_in_hull:
  assumes "i < length pts" "j < length pts" "k < length pts"
    and "orient (pts ! i) (pts ! j) (pts ! k) \<noteq> 0"
    and "in_simplex pts q (i, j, k)"
  shows "in_hull pts q"
proof -
  let ?a = "pts ! i" and ?b = "pts ! j" and ?c = "pts ! k"
  let ?D = "orient ?a ?b ?c"
  define c1 c2 c3 where "c1 = orient q ?b ?c / ?D" and "c2 = orient ?a q ?c / ?D"
    and "c3 = orient ?a ?b q / ?D"
  define w where
    "w l = (if l = i then c1 else 0) + (if l = j then c2 else 0) + (if l = k then c3 else 0)" for l
  from assms(5) have nonneg: "0 \<le> c1" "0 \<le> c2" "0 \<le> c3"
    by (simp_all add: in_simplex_def barycentric_def c1_def c2_def c3_def)
  have one: "c1 + c2 + c3 = 1"
  proof -
    have "c1 + c2 + c3 = (orient q ?b ?c + orient ?a q ?c + orient ?a ?b q) / ?D"
      by (simp add: c1_def c2_def c3_def add_divide_distrib)
    with assms(4) show ?thesis by (simp add: bary_sum)
  qed
  have x: "c1 * fst ?a + c2 * fst ?b + c3 * fst ?c = fst q"
  proof -
    have "c1 * fst ?a + c2 * fst ?b + c3 * fst ?c =
          (orient q ?b ?c * fst ?a + orient ?a q ?c * fst ?b + orient ?a ?b q * fst ?c) / ?D"
      by (simp add: c1_def c2_def c3_def add_divide_distrib)
    with assms(4) show ?thesis by (simp add: bary_fst)
  qed
  have y: "c1 * snd ?a + c2 * snd ?b + c3 * snd ?c = snd q"
  proof -
    have "c1 * snd ?a + c2 * snd ?b + c3 * snd ?c =
          (orient q ?b ?c * snd ?a + orient ?a q ?c * snd ?b + orient ?a ?b q * snd ?c) / ?D"
      by (simp add: c1_def c2_def c3_def add_divide_distrib)
    with assms(4) show ?thesis by (simp add: bary_snd)
  qed
  have "\<forall>l < length pts. 0 \<le> w l" using nonneg by (simp add: w_def)
  moreover have "(\<Sum>l < length pts. w l) = 1"
    using weights_sum [OF assms(1-3), of c1 c2 c3 "\<lambda>_. 1"] one by (simp add: w_def)
  moreover have "fst q = (\<Sum>l < length pts. w l * fst (pts ! l))"
    using weights_sum [OF assms(1-3), of c1 c2 c3 "\<lambda>l. fst (pts ! l)"] x by (simp add: w_def)
  moreover have "snd q = (\<Sum>l < length pts. w l * snd (pts ! l))"
    using weights_sum [OF assms(1-3), of c1 c2 c3 "\<lambda>l. snd (pts ! l)"] y by (simp add: w_def)
  ultimately show ?thesis unfolding in_hull_def by blast
qed

lemma interpolate_outside_hull:
  assumes "\<not> in_hull pts q"
  shows "interpolate pts vals (Some q) = None"
proof -
  have "\<not> in_simplex pts q t" if "t \<in> set (delaunay pts)" for t
  proof -
    from that obtain i j k where t: "t = (i, j, k)" "i < j" "j < k" "k < length pts"
      and d: "is_delaunay pts t"
      unfolding delaunay_set by blast
    from d t(1) have "orient (pts ! i) (pts ! j) (pts ! k) \<noteq> 0" by (simp add: is_delaunay_def)
    with simplex_in_hull [of i pts j k q] t assms show ?thesis by auto
  qed
  then have "find_simplex pts q = None" by (simp add: find_simplex_None)
  then show ?thesis by (simp add: interpolate_def)
qed

lemma three_points_outside:
  assumes "1 < a + b"
  shows "\<not> in_hull (geometry three_points) (a, b)"
proof
  assume "in_hull (geometry three_points) (a, b)"
  then obtain w :: "nat \<Rightarrow> real" where pos: "\<forall>i < length (geometry three_points). 0 \<le> w i"
    and total: "(\<Sum>i < length (geometry three_points). w i) = 1"
    and x: "fst (a, b) = (\<Sum>i < length (geometry three_points). w i * fst (geometry three_points ! i))"
    and y: "snd (a, b) = (\<Sum>i < length (geometry three_points). w i * snd (geometry three_points ! i))"
    unfolding in_hull_def by blast
  from pos have "0 \<le> w 0" by (simp add: three_points_def)
  moreover from total have "w 0 + w 1 + w 2 = 1"
    by (simp add: three_points_def eval_nat_numeral lessThan_Suc)
  moreover from x have "a = w 1"
    by (simp add: three_points_def eval_nat_numeral lessThan_Suc)
  moreover from y have "b = w 2"
    by (simp add: three_points_def eval_nat_numeral lessThan_Suc)
  ultimately show False using assms by simp
qed


subsection \<open>Delaunay triangles at the input points\<close>

lemma orient_swap:
  "orient b a c = - orient a b c" "orient a c b = - orient a b c"
  by (simp_all add: orient_def algebra_simps)

lemma orient_same [simp]: "orient a a c = 0" "orient a b a = 0" "orient a b b = 0"
  by (simp_all add: orient_def)

lemma circle_swap:
  "orient b a c * incircle b a c d = orient a b c * incircle a b c d"
  "orient a c b * incircle a c b d = orient a b c * incircle a b c d"
  unfolding orient_def incircle_def Let_def by algebra+

lemma in_circle_perm:
  "in_circle b a c d = in_circle a b c d"
  "in_circle a c b d = in_circle a b c d"
  "in_circle b c a d = in_circle a b c d"
  "in_circle c a b d = in_circle a b c d"
  "in_circle c b a d = in_circle a b c d"
proof -
  show 1: "in_circle b a c d = in_circle a b c d" for a b c
    by (simp add: in_circle_def circle_swap(1))
  show 2: "in_circle a c b d = in_circle a b c d" for a b c
    by (simp add: in_circle_def circle_swap(2))
  show "in_circle b c a d = in_circle a b c d" using 1 [of a b c] 2 [of b a c] by simp
  show "in_circle c a b d = in_circle a b c d" using 1 [of a c b] 2 [of a b c] by simp
  show "in_circle c b a d = in_circle a b c d" using 1 [of b c a] 1 [of a b c] 2 [of b a c] by simp
qed

lemma orient_cycle:
  "orient b c a = orient a b c" "orient c a b = orient a b c" "orient c b a = - orient a b c"
  by (simp_all add: orient_def algebra_simps)

lemma orient_perm:
  "orient b a c \<noteq> 0 \<longleftrightarrow> orient a b c \<noteq> 0"
  "orient a c b \<noteq> 0 \<longleftrightarrow> orient a b c \<noteq> 0"
  "orient b c a \<noteq> 0 \<longleftrightarrow> orient a b c \<noteq> 0"
  "orient c a b \<noteq> 0 \<longleftrightarrow> orient a b c \<noteq> 0"
  "orient c b a \<noteq> 0 \<longleftrightarrow> orient a b c \<noteq> 0"
  using orient_swap [of a b c] orient_cycle [of a b c] by auto

lemma dist2_pos: "a \<noteq> b \<Longrightarrow> 0 < dist2 a b"
proof -
  assume "a \<noteq> b"
  then have "fst a - fst b \<noteq> 0 \<or> snd a - snd b \<noteq> 0"
    by (auto simp: prod_eq_iff)
  then show ?thesis
    unfolding dist2_def by (auto simp: sum_power2_gt_zero_iff)
qed

lemma dist2_nonneg: "0 \<le> dist2 a b"
  by (simp add: dist2_def)

text \<open>A point of a closed triangle that is not strictly inside the circumcircle is a vertex.\<close>

lemma simplex_vertex:
  assumes D: "orient a b c \<noteq> 0"
    and c1: "0 \<le> orient p b c / orient a b c"
    and c2: "0 \<le> orient a p c / orient a b c"
    and c3: "0 \<le> orient a b p / orient a b c"
    and out: "\<not> in_circle a b c p"
  shows "p = a \<or> p = b \<or> p = c"
proof -
  let ?D = "orient a b c"
  define u v w where "u = orient p b c / ?D" and "v = orient a p c / ?D" and "w = orient a b p / ?D"
  have ne: "a \<noteq> b" "b \<noteq> c" "a \<noteq> c" using D by auto
  have nn: "0 \<le> u" "0 \<le> v" "0 \<le> w" using c1 c2 c3 by (simp_all add: u_def v_def w_def)
  have one: "u + v + w = 1"
  proof -
    have "u + v + w = (orient p b c + orient a p c + orient a b p) / ?D"
      by (simp add: u_def v_def w_def add_divide_distrib)
    with D show ?thesis by (simp add: bary_sum)
  qed
  have N: "orient p b c = u * ?D" "orient a p c = v * ?D" "orient a b p = w * ?D"
    using D by (simp_all add: u_def v_def w_def)
  define Q where "Q = u * v * dist2 a b + v * w * dist2 b c + u * w * dist2 a c"
  define E where "E = ?D * ?D"
  have "E * Q = ?D * incircle a b c p"
    unfolding incircle_bary N Q_def E_def by (simp add: algebra_simps)
  also from out have "\<dots> \<le> 0" by (simp add: in_circle_def)
  finally have "E * Q \<le> 0" .
  moreover have "0 < E" using D zero_less_power2 [of ?D] by (simp add: power2_eq_square E_def)
  ultimately have "Q \<le> 0" by (simp add: mult_le_0_iff)
  then have "u * v * dist2 a b + v * w * dist2 b c + u * w * dist2 a c \<le> 0"
    by (simp add: Q_def)
  moreover have "0 \<le> u * v * dist2 a b" "0 \<le> v * w * dist2 b c" "0 \<le> u * w * dist2 a c"
    using nn by (simp_all add: dist2_nonneg)
  ultimately have "u * v * dist2 a b = 0" "v * w * dist2 b c = 0" "u * w * dist2 a c = 0"
    by linarith+
  with dist2_pos [OF ne(1)] dist2_pos [OF ne(2)] dist2_pos [OF ne(3)]
  have z: "u * v = 0" "v * w = 0" "u * w = 0" by auto
  have x: "u * fst a + v * fst b + w * fst c = fst p"
  proof -
    have "u * fst a + v * fst b + w * fst c =
          (orient p b c * fst a + orient a p c * fst b + orient a b p * fst c) / ?D"
      by (simp add: u_def v_def w_def add_divide_distrib)
    with D show ?thesis by (simp add: bary_fst)
  qed
  have y: "u * snd a + v * snd b + w * snd c = snd p"
  proof -
    have "u * snd a + v * snd b + w * snd c =
          (orient p b c * snd a + orient a p c * snd b + orient a b p * snd c) / ?D"
      by (simp add: u_def v_def w_def add_divide_distrib)
    with D show ?thesis by (simp add: bary_snd)
  qed
  consider "u \<noteq> 0" | "u = 0" "v \<noteq> 0" | "u = 0" "v = 0" by blast
  then show ?thesis
  proof cases
    case 1
    with z have "v = 0" "w = 0" by auto
    with one x y have "p = a" by (simp add: prod_eq_iff)
    then show ?thesis by simp
  next
    case 2
    with z have "w = 0" by auto
    with 2 one x y have "p = b" by (simp add: prod_eq_iff)
    then show ?thesis by simp
  next
    case 3
    with one x y have "p = c" by (simp add: prod_eq_iff)
    then show ?thesis by simp
  qed
qed

lemma barycentric_vertex:
  assumes "orient a b c \<noteq> 0"
  shows "barycentric a b c a = (1, 0, 0)" "barycentric a b c b = (0, 1, 0)"
    "barycentric a b c c = (0, 0, 1)"
  using assms by (simp_all add: barycentric_def)

lemma dot2_self [simp]: "dot2 p q p = 0" "dot2 p q q = 0"
  by (simp_all add: dot2_def)

lemma chord_nonneg:
  assumes near: "\<forall>s \<in> T. s \<noteq> p \<longrightarrow> dist2 p q \<le> dist2 p s" and d: "d \<in> T"
  shows "0 \<le> dot2 p q d"
proof (rule ccontr)
  assume "\<not> 0 \<le> dot2 p q d"
  then have neg: "dot2 p q d < 0" by simp
  then have "d \<noteq> p" by auto
  with near d have le: "dist2 p q \<le> dist2 p d" by simp
  define ux uy vx vy where "ux = fst d - fst p" and "uy = snd d - snd p"
    and "vx = fst q - fst p" and "vy = snd q - snd p"
  have 1: "ux * ux + uy * uy < ux * vx + uy * vy"
    using neg by (simp add: dot2_def ux_def uy_def vx_def vy_def algebra_simps)
  have 2: "vx * vx + vy * vy \<le> ux * ux + uy * uy"
    using le by (simp add: dist2_def ux_def uy_def vx_def vy_def power2_eq_square algebra_simps)
  have "0 \<le> (ux - vx) * (ux - vx) + (uy - vy) * (uy - vy)" by simp
  then have 3: "0 \<le> ux * ux - 2 * (ux * vx) + vx * vx + uy * uy - 2 * (uy * vy) + vy * vy"
    by (simp add: algebra_simps)
  from 1 2 3 show False by linarith
qed

lemma collinear_all:
  assumes "p \<noteq> q" "orient p q a = 0" "orient p q b = 0" "orient p q c = 0"
  shows "orient a b c = 0"
proof -
  have x: "(fst q - fst p) * orient a b c =
        (fst b - fst a) * (orient p q c - orient p q a) -
        (fst c - fst a) * (orient p q b - orient p q a)"
    by (simp add: orient_def algebra_simps)
  have y: "(snd q - snd p) * orient a b c =
        (snd b - snd a) * (orient p q c - orient p q a) -
        (snd c - snd a) * (orient p q b - orient p q a)"
    by (simp add: orient_def algebra_simps)
  from assms(1) have "fst q - fst p \<noteq> 0 \<or> snd q - snd p \<noteq> 0"
    by (auto simp: prod_eq_iff)
  with x y assms(2-) show ?thesis by auto
qed

lemma empty_circle:
  assumes A: "\<forall>d \<in> T. 0 \<le> dot2 p q d"
    and r: "r \<in> T" "orient p q r \<noteq> 0"
    and least: "\<forall>d \<in> T. orient p q d \<noteq> 0 \<longrightarrow>
        dot2 p q r / \<bar>orient p q r\<bar> \<le> dot2 p q d / \<bar>orient p q d\<bar>"
    and d: "d \<in> T"
  shows "\<not> in_circle p q r d"
proof -
  define Ar Ad Br Bd where "Ar = dot2 p q r" and "Ad = dot2 p q d"
    and "Br = orient p q r" and "Bd = orient p q d"
  have nn: "0 \<le> Ar" "0 \<le> Ad" using A r(1) d by (simp_all add: Ar_def Ad_def)
  have Br: "Br \<noteq> 0" using r(2) by (simp add: Br_def)
  have "Br * (Ar * Bd - Ad * Br) \<le> 0"
  proof (cases "Bd = 0")
    case True
    have "0 \<le> Ad * (Br * Br)" using nn by simp
    with True show ?thesis by (simp add: algebra_simps)
  next
    case False
    with least d have "Ar / \<bar>Br\<bar> \<le> Ad / \<bar>Bd\<bar>"
      by (simp add: Ar_def Ad_def Br_def Bd_def)
    with Br False have m: "Ar * \<bar>Bd\<bar> \<le> Ad * \<bar>Br\<bar>"
      by (simp add: field_simps)
    show ?thesis
    proof (cases "0 < Br * Bd")
      case True
      then have "Br * Bd = \<bar>Br\<bar> * \<bar>Bd\<bar>"
        by (simp add: abs_mult [symmetric])
      moreover have "Br * Br = \<bar>Br\<bar> * \<bar>Br\<bar>" by simp
      ultimately have "Br * (Ar * Bd - Ad * Br) = \<bar>Br\<bar> * (Ar * \<bar>Bd\<bar> - Ad * \<bar>Br\<bar>)"
        by (simp add: algebra_simps)
      moreover have "\<bar>Br\<bar> * (Ar * \<bar>Bd\<bar> - Ad * \<bar>Br\<bar>) \<le> 0"
        using m by (simp add: mult_le_0_iff)
      ultimately show ?thesis by simp
    next
      case False
      then have "Ar * (Br * Bd) \<le> 0" using nn by (simp add: mult_le_0_iff not_less)
      moreover have "0 \<le> Ad * (Br * Br)" using nn by simp
      ultimately show ?thesis by (simp add: algebra_simps)
    qed
  qed
  then show ?thesis
    by (simp add: in_circle_def incircle_chord Ar_def Ad_def Br_def Bd_def)
qed

lemma least_exists:
  fixes f :: "'a \<Rightarrow> real"
  assumes "finite S" "S \<noteq> {}"
  shows "\<exists>x \<in> S. \<forall>y \<in> S. f x \<le> f y"
proof -
  from assms have "Min (f ` S) \<in> f ` S" by (intro Min_in) auto
  then obtain x where x: "x \<in> S" "f x = Min (f ` S)" by auto
  have "\<forall>y \<in> S. f x \<le> f y" using assms(1) x(2) by simp
  with x(1) show ?thesis by blast
qed

text \<open>
  Every input point is a vertex of a triangle with an empty circumcircle, unless all
  input points are collinear: take the nearest other point, and of the points off the
  line through the two the one that sees the chord under the largest angle.
\<close>

lemma empty_circle_at_point:
  assumes nd: "\<not> degenerate pts" and p: "p \<in> set pts"
  shows "\<exists>q \<in> set pts. \<exists>r \<in> set pts. orient p q r \<noteq> 0 \<and>
           (\<forall>d \<in> set pts. \<not> in_circle p q r d)"
proof -
  let ?T = "set pts"
  let ?S = "{s \<in> ?T. s \<noteq> p}"
  have "?S \<noteq> {}"
  proof
    assume "?S = {}"
    then have "\<forall>s \<in> ?T. s = p" by auto
    then have "orient a b c = 0" if "a \<in> ?T" "b \<in> ?T" "c \<in> ?T" for a b c
      using that orient_same(1) [of p p] by metis
    then have "degenerate pts" unfolding degenerate_def by blast
    with nd show False by simp
  qed
  moreover have "finite ?S" by simp
  ultimately have "\<exists>q \<in> ?S. \<forall>s \<in> ?S. dist2 p q \<le> dist2 p s"
    by (intro least_exists)
  then obtain q where "q \<in> ?S" and near: "\<forall>s \<in> ?S. dist2 p q \<le> dist2 p s"
    by blast
  then have q: "q \<in> ?T" "q \<noteq> p" by blast+
  from near have near': "\<forall>s \<in> ?T. s \<noteq> p \<longrightarrow> dist2 p q \<le> dist2 p s" by blast
  have A: "\<forall>d \<in> ?T. 0 \<le> dot2 p q d"
    using chord_nonneg [OF near'] by blast
  let ?C = "{d \<in> ?T. orient p q d \<noteq> 0}"
  have "?C \<noteq> {}"
  proof
    assume "?C = {}"
    then have "\<forall>d \<in> ?T. orient p q d = 0" by auto
    with q(2) have "orient a b c = 0" if "a \<in> ?T" "b \<in> ?T" "c \<in> ?T" for a b c
      using that collinear_all [of p q a b c] by auto
    then have "degenerate pts" unfolding degenerate_def by blast
    with nd show False by simp
  qed
  moreover have "finite ?C" by simp
  ultimately have "\<exists>r \<in> ?C. \<forall>d \<in> ?C.
      dot2 p q r / \<bar>orient p q r\<bar> \<le> dot2 p q d / \<bar>orient p q d\<bar>"
    by (intro least_exists)
  then obtain r where "r \<in> ?C" and least: "\<forall>d \<in> ?C.
      dot2 p q r / \<bar>orient p q r\<bar> \<le> dot2 p q d / \<bar>orient p q d\<bar>"
    by blast
  then have r: "r \<in> ?T" "orient p q r \<noteq> 0" by blast+
  from least have least': "\<forall>d \<in> ?T. orient p q d \<noteq> 0 \<longrightarrow>
      dot2 p q r / \<bar>orient p q r\<bar> \<le> dot2 p q d / \<bar>orient p q d\<bar>" by blast
  have "\<forall>d \<in> ?T. \<not> in_circle p q r d"
    using empty_circle [OF A r least'] by blast
  with q(1) r show ?thesis by blast
qed

lemma delaunay_triangle_sorted:
  assumes lt: "a < length pts" "b < length pts" "c < length pts"
    and ne: "a \<noteq> b" "b \<noteq> c" "a \<noteq> c"
    and D: "orient (pts ! a) (pts ! b) (pts ! c) \<noteq> 0"
    and E: "\<forall>d \<in> set pts. \<not> in_circle (pts ! a) (pts ! b) (pts ! c) d"
  shows "\<exists>i j k. (i, j, k) \<in> set (delaunay pts) \<and> {i, j, k} = {a, b, c}"
proof -
  from ne consider "a < b" "b < c" | "a < c" "c < b" | "b < a" "a < c"
    | "b < c" "c < a" | "c < a" "a < b" | "c < b" "b < a"
    by linarith
  then show ?thesis
  proof cases
    case 1
    with lt D E have "(a, b, c) \<in> set (delaunay pts)"
      by (auto simp: delaunay_set is_delaunay_def)
    then show ?thesis by blast
  next
    case 2
    with lt D E have "(a, c, b) \<in> set (delaunay pts)"
      by (auto simp: delaunay_set is_delaunay_def orient_perm in_circle_perm)
    moreover have "{a, c, b} = {a, b, c}" by auto
    ultimately show ?thesis by blast
  next
    case 3
    with lt D E have "(b, a, c) \<in> set (delaunay pts)"
      by (auto simp: delaunay_set is_delaunay_def orient_perm in_circle_perm)
    moreover have "{b, a, c} = {a, b, c}" by auto
    ultimately show ?thesis by blast
  next
    case 4
    with lt D E have "(b, c, a) \<in> set (delaunay pts)"
      by (auto simp: delaunay_set is_delaunay_def orient_perm in_circle_perm)
    moreover have "{b, c, a} = {a, b, c}" by auto
    ultimately show ?thesis by blast
  next
    case 5
    with lt D E have "(c, a, b) \<in> set (delaunay pts)"
      by (auto simp: delaunay_set is_delaunay_def orient_perm in_circle_perm)
    moreover have "{c, a, b} = {a, b, c}" by auto
    ultimately show ?thesis by blast
  next
    case 6
    with lt D E have "(c, b, a) \<in> set (delaunay pts)"
      by (auto simp: delaunay_set is_delaunay_def orient_perm in_circle_perm)
    moreover have "{c, b, a} = {a, b, c}" by auto
    ultimately show ?thesis by blast
  qed
qed

lemma vertex_in_simplex:
  assumes "orient (pts ! i) (pts ! j) (pts ! k) \<noteq> 0" "l \<in> {i, j, k}"
  shows "in_simplex pts (pts ! l) (i, j, k)"
  using assms by (auto simp: in_simplex_def barycentric_vertex)

lemma point_located:
  assumes nd: "\<not> degenerate pts" and l: "l < length pts"
  shows "\<exists>t. find_simplex pts (pts ! l) = Some t"
proof -
  from l have "pts ! l \<in> set pts" by simp
  from empty_circle_at_point [OF nd this] obtain q r where
    q: "q \<in> set pts" and r: "r \<in> set pts" and D: "orient (pts ! l) q r \<noteq> 0"
    and E: "\<forall>d \<in> set pts. \<not> in_circle (pts ! l) q r d"
    by blast
  from q r obtain m o' where m: "m < length pts" "q = pts ! m"
    and o: "o' < length pts" "r = pts ! o'"
    by (auto simp: in_set_conv_nth)
  from D m(2) o(2) have "l \<noteq> m" "m \<noteq> o'" "l \<noteq> o'" by auto
  from delaunay_triangle_sorted [OF l m(1) o(1) this] D E m(2) o(2)
  obtain i j k where t: "(i, j, k) \<in> set (delaunay pts)" and s: "{i, j, k} = {l, m, o'}"
    by auto
  from t have "orient (pts ! i) (pts ! j) (pts ! k) \<noteq> 0"
    by (simp add: delaunay_set is_delaunay_def)
  moreover from s have "l \<in> {i, j, k}" by auto
  ultimately have "in_simplex pts (pts ! l) (i, j, k)" by (rule vertex_in_simplex)
  with t have "find_simplex pts (pts ! l) \<noteq> None"
    unfolding find_simplex_None by blast
  then show ?thesis by auto
qed

lemma interpolate_at_sample:
  assumes nd: "\<not> degenerate pts" and l: "l < length pts"
    and single: "\<forall>l' < length pts. pts ! l' = pts ! l \<longrightarrow> l' = l"
  shows "interpolate pts vals (Some (pts ! l)) = Some (vals ! l)"
proof -
  from point_located [OF nd l] obtain t where f: "find_simplex pts (pts ! l) = Some t" ..
  from find_simplex_Some [OF f] obtain i j k where t: "t = (i, j, k)"
    and lt: "i < length pts" "j < length pts" "k < length pts"
    and dl: "is_delaunay pts (i, j, k)" and ins: "in_simplex pts (pts ! l) (i, j, k)"
    unfolding delaunay_set by auto
  let ?a = "pts ! i" and ?b = "pts ! j" and ?c = "pts ! k" and ?p = "pts ! l"
  from dl have D: "orient ?a ?b ?c \<noteq> 0" by (simp add: is_delaunay_def)
  from dl l have E: "\<not> in_circle ?a ?b ?c ?p" by (simp add: is_delaunay_def)
  from ins have "0 \<le> orient ?p ?b ?c / orient ?a ?b ?c"
    "0 \<le> orient ?a ?p ?c / orient ?a ?b ?c" "0 \<le> orient ?a ?b ?p / orient ?a ?b ?c"
    by (simp_all add: in_simplex_def barycentric_def)
  from simplex_vertex [OF D this E] have "?p = ?a \<or> ?p = ?b \<or> ?p = ?c" .
  with single lt have "l = i \<or> l = j \<or> l = k" by metis
  with f t D show ?thesis
    by (auto simp: interpolate_def barycentric_vertex)
qed

lemma duplicated_points_run:
  "interpolate_point_measures duplicated_points [''temp''] = Inr duplicated_surface"
proof -
  have "orient (0, 0) (1, 0) (0, 1) \<noteq> 0" by (simp add: orient_def)
  then have "\<not> degenerate [(0, 0), (0, 0), (1, 0), (0, 1)]"
    unfolding degenerate_def by (metis list.set_intros(1) list.set_intros(2))
  moreover have "total_bounds [(0, 0), (0, 0), (1, 0), (0, 1)] = Some (Box 0 0 1 1)"
    by (simp add: total_bounds_def bounds_def)
  ultimately show ?thesis
    by (simp add: interpolate_point_measures_def duplicated_points_def duplicated_surface_def
        griddata_def Let_def)
qed

text \<open>
  The scenario of the specification: three points with the values 10, 20 and 30 give 15
  halfway between the first two, and no value at \<open>(2, 2)\<close>, outside their triangle.
\<close>

lemma three_points_delaunay: "delaunay [(0, 0), (1, 0), (0, 1)] = [(0, 1, 2)]"
  by (simp add: delaunay_def is_delaunay_def in_circle_def incircle_def orient_def Let_def
      upt_conv_Cons)

lemma scenario_inside: "interpolate [(0, 0), (1, 0), (0, 1)] [10, 20, 30] (Some (1 / 2, 0)) = Some 15"
  by (simp add: interpolate_def find_simplex_def three_points_delaunay in_simplex_def
      barycentric_def orient_def)

lemma scenario_outside: "interpolate [(0, 0), (1, 0), (0, 1)] [10, 20, 30] (Some (2, 2)) = None"
  by (simp add: interpolate_def find_simplex_def three_points_delaunay in_simplex_def
      barycentric_def orient_def)

section \<open>Claims about the grid generator\<close>

text \<open>
  C1: every point returned by the grid generator lies, after reprojection to the
  geographic frame, inside the input polygon or on its boundary; the docstring of the
  function promises the same, the grid points within the polygon.  The code does not
  keep the promise.  It tests the nodes against the polygon whose vertices are projected
  one by one, and the projection is not affine in the latitude.  For the large triangle
  at a resolution of 5700 km the lattice node (5700000, 5700000) is strictly inside the
  projected triangle, so its reprojection (about 51.2 degrees east, 45.5 degrees north)
  is returned, and that point is beyond the slanted edge of the input triangle.
\<close>

theorem binning_point_outside_input_polygon:
  "(case polygon_binning_to_points to_crs_3857 to_crs_4326 [big_triangle] 5700000 of
      Some (Inr out) \<Rightarrow> to_crs_4326 (5700000, 5700000) \<in> set out
    | _ \<Rightarrow> False) \<and>
   \<not> contains big_triangle (to_crs_4326 (5700000, 5700000)) \<and>
   \<not> on_boundary big_triangle (to_crs_4326 (5700000, 5700000))"
  using big_triangle_point_returned big_triangle_node_outside
  by (simp add: big_triangle_run)

text \<open>
  C2, as stated: with a non-positive resolution, or one larger than the extent of the
  bounding box, the grid generator returns a point collection.  This fails for the
  resolution 0 on the unit square: its projected bounding box is not degenerate, the
  inner loop is entered and \<^verbatim>\<open>y += 0\<close> never makes its test false.
\<close>

theorem binning_zero_resolution_diverges:
  "polygon_binning_to_points to_crs_3857 to_crs_4326 [unit_square] 0 = None"
  by (rule binning_diverges [of 0 "(0, 0)" _ "(1, 0)" _ "(0, 0)" "(0, 1)"])
    (simp_all add: unit_square_def mercator_unit)

text \<open>
  C2, amended: for every positive resolution, in particular one larger than the extent
  of the bounding box, the grid generator returns normally, with the reprojected lattice
  nodes that the projected polygon contains (possibly none).
\<close>

theorem binning_returns_for_positive_resolution:
  assumes "0 < r"
  shows "polygon_binning_to_points to_3857 to_4326 (poly # rest) r =
         Some (Inr (map to_4326
           (filter (contains (map to_3857 poly)) (lattice_nodes (map to_3857 poly) r))))"
  using assms by (rule binning_closed)

theorem binning_returns_for_positive_resolution_witness:
  "polygon_binning_to_points to_crs_3857 to_crs_4326 [unit_square] 500000 =
     Some (Inr (map to_crs_4326
       (filter (contains (map to_crs_3857 unit_square))
          (lattice_nodes (map to_crs_3857 unit_square) 500000))))"
  using binning_returns_for_positive_resolution [of 500000 to_crs_3857 to_crs_4326 unit_square "[]"]
  by simp

text \<open>
  C8: the grid generator is deterministic.  Two runs of the loops on the same polygon
  and the same resolution that both end return the same points in the same order.  (The
  runs of the transition system that end are exactly the results of the function, by
  \<open>returns_iff\<close>.)
\<close>

theorem binning_deterministic:
  assumes "returns to_3857 to_4326 gdf r res1" "returns to_3857 to_4326 gdf r res2"
  shows "res1 = res2"
proof (cases gdf)
  case Nil
  with assms show ?thesis by (simp add: returns_def)
next
  case (Cons poly rest)
  show ?thesis
  proof (cases "bounds (map to_3857 poly)")
    case None
    with assms Cons show ?thesis by (simp add: returns_def)
  next
    case (Some b)
    obtain minx miny maxx maxy where b: "b = Box minx miny maxx maxy" by (cases b)
    let ?run = "(step (map to_3857 poly) r (Box minx miny maxx maxy))\<^sup>*\<^sup>*
                  (At_outer, State minx miny [])"
    from assms Cons Some b obtain s1 s2 where
      "?run (Finished, s1)" "res1 = Inr (map to_4326 (grid_points s1))"
      "?run (Finished, s2)" "res2 = Inr (map to_4326 (grid_points s2))"
      by (auto simp: returns_def)
    then show ?thesis
      using run_deterministic [of "map to_3857 poly" r "Box minx miny maxx maxy"
          "(At_outer, State minx miny [])" s1 s2]
      by simp
  qed
qed

theorem binning_deterministic_witness:
  "returns to_crs_3857 to_crs_4326 [big_triangle] 5700000 (Inr big_triangle_points) \<and>
   returns to_crs_3857 to_crs_4326 [big_triangle] 5700000
     (the (polygon_binning_to_points to_crs_3857 to_crs_4326 [big_triangle] 5700000)) \<and>
   the (polygon_binning_to_points to_crs_3857 to_crs_4326 [big_triangle] 5700000) =
     Inr big_triangle_points"
proof -
  have r1: "returns to_crs_3857 to_crs_4326 [big_triangle] 5700000 (Inr big_triangle_points)"
    using big_triangle_run by (rule binning_is_run)
  have r2: "returns to_crs_3857 to_crs_4326 [big_triangle] 5700000
     (the (polygon_binning_to_points to_crs_3857 to_crs_4326 [big_triangle] 5700000))"
    by (rule binning_is_run) (simp add: big_triangle_run)
  from r1 r2 binning_deterministic [OF r2 r1] show ?thesis by simp
qed

text \<open>
  C10: the containment test of the grid generator excludes the boundary.  Whatever the
  polygon and the resolution, the returned points are the reprojections of the retained
  nodes, every retained node is strictly inside the projected polygon, and a node on an
  edge or at a vertex of the projected polygon is never retained.
\<close>

theorem binning_excludes_boundary:
  assumes "polygon_binning_to_points to_3857 to_4326 (poly # rest) r = Some (Inr out)"
  shows "\<exists>ns. grid_points_of (map to_3857 poly) r = Some ns \<and> out = map to_4326 ns \<and>
              (\<forall>n \<in> set ns. contains (map to_3857 poly) n) \<and>
              (\<forall>n. on_boundary (map to_3857 poly) n \<longrightarrow> n \<notin> set ns)"
proof -
  from assms obtain ns where ns: "grid_points_of (map to_3857 poly) r = Some ns"
    and out: "out = map to_4326 ns"
    by (auto simp: polygon_binning_to_points_def)
  have inside: "contains (map to_3857 poly) n" if "n \<in> set ns" for n
    using grid_points_of_contained [OF ns that] .
  have "n \<notin> set ns" if "on_boundary (map to_3857 poly) n" for n
  proof
    assume "n \<in> set ns"
    then have "contains (map to_3857 poly) n" by (rule inside)
    with that show False by (simp add: contains_def)
  qed
  with ns out inside show ?thesis by blast
qed

theorem binning_excludes_boundary_witness:
  "polygon_binning_to_points to_crs_3857 to_crs_4326 [big_triangle] 5700000 =
     Some (Inr big_triangle_points) \<and>
   grid_points_of (map to_crs_3857 big_triangle) 5700000 =
     Some (filter (contains (map to_crs_3857 big_triangle))
             (lattice_nodes (map to_crs_3857 big_triangle) 5700000)) \<and>
   (5700000, 0) \<in> set (lattice_nodes (map to_crs_3857 big_triangle) 5700000) \<and>
   on_boundary (map to_crs_3857 big_triangle) (5700000, 0) \<and>
   (5700000, 0) \<notin> set (filter (contains (map to_crs_3857 big_triangle))
                          (lattice_nodes (map to_crs_3857 big_triangle) 5700000)) \<and>
   (5700000, 5700000) \<in> set (filter (contains (map to_crs_3857 big_triangle))
                          (lattice_nodes (map to_crs_3857 big_triangle) 5700000)) \<and>
   \<not> on_boundary (map to_crs_3857 big_triangle) (5700000, 5700000)"
proof -
  from binning_excludes_boundary [OF big_triangle_run] obtain ns where
    ns: "grid_points_of (map to_crs_3857 big_triangle) 5700000 = Some ns"
    and nb: "\<forall>n. on_boundary (map to_crs_3857 big_triangle) n \<longrightarrow> n \<notin> set ns"
    by blast
  have closed: "grid_points_of (map to_crs_3857 big_triangle) 5700000 =
      Some (filter (contains (map to_crs_3857 big_triangle))
        (lattice_nodes (map to_crs_3857 big_triangle) 5700000))"
    by (simp add: grid_points_of_closed)
  with ns have eq: "ns = filter (contains (map to_crs_3857 big_triangle))
      (lattice_nodes (map to_crs_3857 big_triangle) 5700000)"
    by simp
  from big_triangle_node_inside big_triangle_node_on_lattice
  have r: "(5700000, 5700000) \<in> set ns" unfolding eq by simp
  from nb big_triangle_edge_node(2) have e: "(5700000, 0) \<notin> set ns" by blast
  from nb r have "\<not> on_boundary (map to_crs_3857 big_triangle) (5700000, 5700000)" by blast
  with big_triangle_run closed big_triangle_edge_node e r show ?thesis
    unfolding eq by blast
qed



section \<open>Claims about the surface interpolator\<close>

text \<open>
  C3: a lattice node strictly outside the convex hull of the input points carries the
  undefined value for every requested attribute.  Whenever the interpolator returns a
  frame, every column of it is undefined at every node that is no convex combination of
  the input points.  (Point location is exact here; scipy accepts barycentric coordinates
  down to a negative tolerance of the order of the float64 rounding unit.)
\<close>

theorem no_extrapolation:
  assumes "interpolate_point_measures gdf selected_measures = Inr out"
    and "c \<in> set (grid_columns out)"
    and "k < length (grid_geometry out)"
    and "grid_geometry out ! k = Some q"
    and "\<not> in_hull (geometry gdf) q"
  shows "snd c ! k = None"
proof -
  let ?grid = "mgrid (total_bounds (geometry gdf))"
  have geo: "grid_geometry out = ?grid" using assms(1) by (rule interpolate_Inr(1))
  from measure_loop_columns [OF interpolate_Inr(2) [OF assms(1)] assms(2)]
  obtain vals where "griddata (geometry gdf) vals ?grid = Inr (snd c)" by auto
  then have "snd c = map (interpolate (geometry gdf) vals) ?grid" by (rule griddata_Inr(4))
  with assms(3,4) geo have "snd c ! k = interpolate (geometry gdf) vals (Some q)" by simp
  with assms(5) show ?thesis by (simp add: interpolate_outside_hull)
qed

theorem no_extrapolation_witness:
  "interpolate_point_measures three_points [''temp''] = Inr three_points_surface \<and>
   grid_geometry three_points_surface ! (500 * 500 - 1) =
     Some (9007199254740991 / 9007199254740992, 9007199254740991 / 9007199254740992) \<and>
   \<not> in_hull (geometry three_points)
       (9007199254740991 / 9007199254740992, 9007199254740991 / 9007199254740992) \<and>
   snd (hd (grid_columns three_points_surface)) ! (500 * 500 - 1) = None"
proof -
  have c: "hd (grid_columns three_points_surface) \<in> set (grid_columns three_points_surface)"
    by (simp add: three_points_surface_def)
  have k: "500 * 500 - 1 < length (grid_geometry three_points_surface)"
    by (simp add: three_points_surface_def length_mgrid grid_size_def)
  have n: "grid_geometry three_points_surface ! (500 * 500 - 1) =
      Some (9007199254740991 / 9007199254740992, 9007199254740991 / 9007199254740992)"
    using nth_mgrid [of 499 499 0 0 1 1] axis_unit_last
    by (simp add: three_points_surface_def grid_size_def grid_point_def)
  have h: "\<not> in_hull (geometry three_points)
      (9007199254740991 / 9007199254740992, 9007199254740991 / 9007199254740992)"
    by (rule three_points_outside) simp
  from no_extrapolation [OF three_points_run c k n h] three_points_run n h
  show ?thesis by simp
qed

text \<open>
  C4, as stated: with a non-empty input, a requested attribute name that is no column of
  the input makes the interpolator fail with the missing-attribute error (the
  \<open>KeyError\<close> of the column lookup) and with no other error.  This fails for a frame
  of one point when a present name is requested before the absent one: the triangulation
  for the present attribute raises \<open>QhullError\<close> before the absent name is looked up.
\<close>

theorem missing_attribute_after_present_one:
  "geometry single_point \<noteq> [] \<and> map_of (columns single_point) ''ph'' = None \<and>
   interpolate_point_measures single_point [''temp'', ''ph''] = Inl QhullError"
  by (simp add: single_point_def interpolate_point_measures_def griddata_def degenerate_def
      orient_def Let_def)

text \<open>
  C4, amended: with a non-empty input, a requested attribute name that is no column of
  the input makes the interpolator fail.  The error is the \<open>KeyError\<close> of the column
  lookup, unless the input has fewer than three non-collinear points and the first
  requested name is a column: then the triangulation for that column raises
  \<open>QhullError\<close> first.
\<close>

theorem missing_attribute_fails:
  assumes "wf_frame gdf" "geometry gdf \<noteq> []"
    and "name \<in> set selected_measures" "map_of (columns gdf) name = None"
  shows "interpolate_point_measures gdf selected_measures =
         Inl (if degenerate (geometry gdf) \<and> map_of (columns gdf) (hd selected_measures) \<noteq> None
              then QhullError else KeyError)"
proof (cases "degenerate (geometry gdf)")
  case False
  with measure_loop_missing [OF assms(1,2) False assms(3,4)] show ?thesis
    by (simp add: interpolate_point_measures_def Let_def)
next
  case True
  from assms(3) obtain n1 rest where ms: "selected_measures = n1 # rest"
    by (cases selected_measures) auto
  show ?thesis
  proof (cases "map_of (columns gdf) n1")
    case None
    with ms show ?thesis by (simp add: interpolate_point_measures_def Let_def)
  next
    case (Some vals)
    from griddata_degenerate [OF True assms(2) column_length [OF assms(1) Some]] Some ms True
    show ?thesis by (simp add: interpolate_point_measures_def Let_def)
  qed
qed

theorem missing_attribute_fails_witness:
  "interpolate_point_measures three_points [''temp'', ''ph''] = Inl KeyError \<and>
   interpolate_point_measures single_point [''ph'', ''temp''] = Inl KeyError"
proof -
  have wf: "wf_frame three_points" "wf_frame single_point"
    by (simp_all add: wf_frame_def three_points_def single_point_def)
  have ne: "geometry three_points \<noteq> []" "geometry single_point \<noteq> []"
    by (simp_all add: three_points_def single_point_def)
  have ph: "map_of (columns three_points) ''ph'' = None" "map_of (columns single_point) ''ph'' = None"
    by (simp_all add: three_points_def single_point_def)
  have nd: "\<not> degenerate (geometry three_points)"
    by (simp add: three_points_def degenerate_def orient_def)
  from missing_attribute_fails [OF wf(1) ne(1) _ ph(1), of "[''temp'', ''ph'']"]
    missing_attribute_fails [OF wf(2) ne(2) _ ph(2), of "[''ph'', ''temp'']"] nd ph
  show ?thesis by simp
qed

text \<open>
  C5, as stated: with fewer than three non-collinear input points the interpolator
  returns a grid that is undefined everywhere, and does not raise.  This fails for a
  frame of two points: the triangulation raises \<open>QhullError\<close> and no grid is returned.
\<close>

theorem two_points_raise:
  "degenerate (geometry two_points) \<and>
   interpolate_point_measures two_points [''temp''] = Inl QhullError"
  by (simp add: two_points_def interpolate_point_measures_def griddata_def degenerate_def
      orient_def Let_def)

text \<open>
  C5, amended: with a non-empty input of fewer than three non-collinear points and at
  least one requested attribute, the interpolator raises: \<open>KeyError\<close> if the first
  requested name is no column of the input, and the \<open>QhullError\<close> of the triangulation
  otherwise.
\<close>

theorem degenerate_input_raises:
  assumes "wf_frame gdf" "geometry gdf \<noteq> []" "degenerate (geometry gdf)"
  shows "interpolate_point_measures gdf (name # rest) =
         Inl (if map_of (columns gdf) name = None then KeyError else QhullError)"
proof (cases "map_of (columns gdf) name")
  case None
  then show ?thesis by (simp add: interpolate_point_measures_def Let_def)
next
  case (Some vals)
  from griddata_degenerate [OF assms(3,2) column_length [OF assms(1) Some]] Some
  show ?thesis by (simp add: interpolate_point_measures_def Let_def)
qed

theorem degenerate_input_raises_witness:
  "interpolate_point_measures two_points [''temp'', ''ph''] = Inl QhullError \<and>
   interpolate_point_measures two_points [''ph'', ''temp''] = Inl KeyError"
proof -
  have wf: "wf_frame two_points" by (simp add: wf_frame_def two_points_def)
  have ne: "geometry two_points \<noteq> []" by (simp add: two_points_def)
  have dg: "degenerate (geometry two_points)"
    by (simp add: two_points_def degenerate_def orient_def)
  from degenerate_input_raises [OF wf ne dg, of "''temp''" "[''ph'']"]
    degenerate_input_raises [OF wf ne dg, of "''ph''" "[''temp'']"]
  show ?thesis by (simp add: two_points_def)
qed

text \<open>
  C6, as stated: for an empty point collection the interpolator fails with the
  insufficient-data error whatever the requested attributes are.  This fails for the
  empty list of attributes: the bounding box of an empty frame is four NaN, no exception,
  the loop over the measures does not run, and a grid of 500 by 500 nodes with undefined
  coordinates is returned.
\<close>

theorem empty_input_returns_grid:
  "geometry no_points = [] \<and> interpolate_point_measures no_points [] = Inr undefined_grid"
  by (simp add: no_points_def undefined_grid_def interpolate_point_measures_def
      total_bounds_def bounds_def mgrid_def grid_size_def Let_def)

text \<open>
  C6, amended: for an empty point collection the interpolator fails exactly when an
  attribute is requested: with \<open>KeyError\<close> if the first requested name is no column of
  the input, and otherwise with the \<open>ValueError\<close> that the triangulation raises when
  it is given no point.  With no requested attribute it returns a grid of 500 by 500
  nodes with undefined coordinates and no column.
\<close>

theorem empty_input_outcome:
  assumes "geometry gdf = []"
  shows "interpolate_point_measures gdf selected_measures =
         (case selected_measures of
            [] \<Rightarrow> Inr undefined_grid
          | name # rest \<Rightarrow>
              Inl (if map_of (columns gdf) name = None then KeyError else ValueError))"
proof (cases selected_measures)
  case Nil
  with assms show ?thesis
    by (simp add: undefined_grid_def interpolate_point_measures_def
        total_bounds_def bounds_def mgrid_def grid_size_def Let_def)
next
  case (Cons name rest)
  with assms show ?thesis
    by (cases "map_of (columns gdf) name")
      (simp_all add: interpolate_point_measures_def Let_def griddata_empty)
qed

theorem empty_input_outcome_witness:
  "interpolate_point_measures no_points [''temp''] = Inl ValueError \<and>
   interpolate_point_measures no_points [''ph''] = Inl KeyError"
proof -
  have e: "geometry no_points = []" by (simp add: no_points_def)
  from empty_input_outcome [OF e, of "[''temp'']"] empty_input_outcome [OF e, of "[''ph'']"]
  show ?thesis by (simp add: no_points_def)
qed

text \<open>
  C7, as stated: for a non-empty input the output is built on a lattice of 500 by 500
  nodes, one record per node, and the extreme nodes of the lattice coincide exactly with
  the corners of the bounding box of the input points.  This fails for the three points
  \<open>(0, 0)\<close>, \<open>(1, 0)\<close>, \<open>(0, 1)\<close>: their bounding box has the corner
  \<open>(1, 1)\<close>, but the step \<open>1 / 499\<close> is rounded down, \<open>499\<close> steps end at the
  float64 number just below 1, and the last node is not the corner.
\<close>

theorem last_node_misses_corner:
  "interpolate_point_measures three_points [''temp''] = Inr three_points_surface \<and>
   total_bounds (geometry three_points) = Some (Box 0 0 1 1) \<and>
   grid_geometry three_points_surface ! (500 * 500 - 1) =
     Some (9007199254740991 / 9007199254740992, 9007199254740991 / 9007199254740992) \<and>
   grid_geometry three_points_surface ! (500 * 500 - 1) \<noteq> Some (1, 1)"
proof -
  have b: "total_bounds (geometry three_points) = Some (Box 0 0 1 1)"
    by (simp add: total_bounds_def bounds_def three_points_def)
  have n: "grid_geometry three_points_surface ! (500 * 500 - 1) =
      Some (9007199254740991 / 9007199254740992, 9007199254740991 / 9007199254740992)"
    using nth_mgrid [of 499 499 0 0 1 1] axis_unit_last
    by (simp add: three_points_surface_def grid_size_def grid_point_def)
  with three_points_run b show ?thesis by simp
qed

text \<open>
  C7, amended: for a non-empty input the output is built on a lattice of 500 by 500
  nodes, whatever the density or the extent of the input; the geometry column and every
  attribute column have one entry per node, and node \<open>(i, j)\<close> is at position
  \<open>i * 500 + j\<close>.  When the coordinates of the input are float64 numbers of magnitude
  at most \<open>2 ^ 1020\<close>, the first node of each axis is the minimum of the bounding box
  exactly, and the last node of each axis is its maximum up to the float64 rounding of
  \<open>499 * ((max - min) / 499) + min\<close>: the distance is at most
  \<open>(\<bar>min\<bar> + \<bar>max\<bar>) / 2 ^ 50 + 1 / 2 ^ 1065\<close>.  So the extreme nodes are the
  corners of the bounding box exactly in their minimum coordinates, and up to that
  rounding in their maximum coordinates.
\<close>

theorem interpolation_grid_is_500_by_500:
  fixes gdf :: frame
  defines "xmin \<equiv> Min (fst ` set (geometry gdf))" and "ymin \<equiv> Min (snd ` set (geometry gdf))"
    and "xmax \<equiv> Max (fst ` set (geometry gdf))" and "ymax \<equiv> Max (snd ` set (geometry gdf))"
  assumes "interpolate_point_measures gdf selected_measures = Inr out"
    and "geometry gdf \<noteq> []"
  shows "length (grid_geometry out) = 500 * 500 \<and>
         (\<forall>c \<in> set (grid_columns out). length (snd c) = 500 * 500) \<and>
         (\<forall>i < 500. \<forall>j < 500.
            grid_geometry out ! (i * 500 + j) = grid_point (axis xmin xmax i) (axis ymin ymax j)) \<and>
         ((\<forall>p \<in> set (geometry gdf).
             is_float64 (fst p) \<and> is_float64 (snd p) \<and>
             \<bar>fst p\<bar> \<le> 2 ^ 1020 \<and> \<bar>snd p\<bar> \<le> 2 ^ 1020) \<longrightarrow>
          (\<exists>x y. \<bar>x - xmax\<bar> \<le> (\<bar>xmin\<bar> + \<bar>xmax\<bar>) / 2 ^ 50 + 1 / 2 ^ 1065 \<and>
                 \<bar>y - ymax\<bar> \<le> (\<bar>ymin\<bar> + \<bar>ymax\<bar>) / 2 ^ 50 + 1 / 2 ^ 1065 \<and>
                 grid_geometry out ! 0 = Some (xmin, ymin) \<and>
                 grid_geometry out ! 499 = Some (xmin, y) \<and>
                 grid_geometry out ! (499 * 500) = Some (x, ymin) \<and>
                 grid_geometry out ! (500 * 500 - 1) = Some (x, y)))"
proof -
  have tb: "total_bounds (geometry gdf) = Some (Box xmin ymin xmax ymax)"
    unfolding xmin_def ymin_def xmax_def ymax_def
    using assms(6) by (rule total_bounds_nonempty)
  have geo: "grid_geometry out = mgrid (Some (Box xmin ymin xmax ymax))"
    using interpolate_Inr(1) [OF assms(5)] tb by simp
  have node: "grid_geometry out ! (i * 500 + j) = grid_point (axis xmin xmax i) (axis ymin ymax j)"
    if "i < 500" "j < 500" for i j
    using nth_mgrid [of i j xmin ymin xmax ymax] that unfolding geo by (simp add: grid_size_def)
  have len: "length (grid_geometry out) = 500 * 500"
    unfolding geo by (simp add: length_mgrid grid_size_def)
  have cols: "length (snd c) = 500 * 500" if "c \<in> set (grid_columns out)" for c
  proof -
    from measure_loop_columns [OF interpolate_Inr(2) [OF assms(5)] that]
    obtain vals where "griddata (geometry gdf) vals (mgrid (total_bounds (geometry gdf))) = Inr (snd c)"
      by auto
    from griddata_Inr(4) [OF this] show ?thesis
      by (simp add: length_mgrid grid_size_def)
  qed
  have corners: "\<exists>x y. \<bar>x - xmax\<bar> \<le> (\<bar>xmin\<bar> + \<bar>xmax\<bar>) / 2 ^ 50 + 1 / 2 ^ 1065 \<and>
      \<bar>y - ymax\<bar> \<le> (\<bar>ymin\<bar> + \<bar>ymax\<bar>) / 2 ^ 50 + 1 / 2 ^ 1065 \<and>
      grid_geometry out ! 0 = Some (xmin, ymin) \<and>
      grid_geometry out ! 499 = Some (xmin, y) \<and>
      grid_geometry out ! (499 * 500) = Some (x, ymin) \<and>
      grid_geometry out ! (500 * 500 - 1) = Some (x, y)"
    if fl: "\<forall>p \<in> set (geometry gdf).
      is_float64 (fst p) \<and> is_float64 (snd p) \<and> \<bar>fst p\<bar> \<le> 2 ^ 1020 \<and> \<bar>snd p\<bar> \<le> 2 ^ 1020"
  proof -
    have fin: "finite (fst ` set (geometry gdf))" "finite (snd ` set (geometry gdf))"
      and nonempty: "fst ` set (geometry gdf) \<noteq> {}" "snd ` set (geometry gdf) \<noteq> {}"
      using assms(6) by simp_all
    have "xmin \<in> fst ` set (geometry gdf)" "xmax \<in> fst ` set (geometry gdf)"
      unfolding xmin_def xmax_def using fin(1) nonempty(1) by (rule Min_in, rule Max_in)
    with fl have x: "is_float64 xmin" "\<bar>xmin\<bar> \<le> 2 ^ 1020" "\<bar>xmax\<bar> \<le> 2 ^ 1020" by auto
    have "ymin \<in> snd ` set (geometry gdf)" "ymax \<in> snd ` set (geometry gdf)"
      unfolding ymin_def ymax_def using fin(2) nonempty(2) by (rule Min_in, rule Max_in)
    with fl have y: "is_float64 ymin" "\<bar>ymin\<bar> \<le> 2 ^ 1020" "\<bar>ymax\<bar> \<le> 2 ^ 1020" by auto
    from axis_last_error [OF x(2,3)] obtain x where
      ax: "axis xmin xmax 499 = Some x" "\<bar>x - xmax\<bar> \<le> (\<bar>xmin\<bar> + \<bar>xmax\<bar>) / 2 ^ 50 + 1 / 2 ^ 1065"
      by (auto simp: grid_size_def)
    from axis_last_error [OF y(2,3)] obtain y where
      ay: "axis ymin ymax 499 = Some y" "\<bar>y - ymax\<bar> \<le> (\<bar>ymin\<bar> + \<bar>ymax\<bar>) / 2 ^ 50 + 1 / 2 ^ 1065"
      by (auto simp: grid_size_def)
    note a0 = axis_first [OF x] axis_first [OF y]
    from node [of 0 0] node [of 0 499] node [of 499 0] node [of 499 499]
    have "grid_geometry out ! 0 = Some (xmin, ymin)"
      "grid_geometry out ! 499 = Some (xmin, y)"
      "grid_geometry out ! (499 * 500) = Some (x, ymin)"
      "grid_geometry out ! (500 * 500 - 1) = Some (x, y)"
      by (simp_all add: a0 ax(1) ay(1) grid_point_def)
    with ax(2) ay(2) show ?thesis by blast
  qed
  from node have "\<forall>i < 500. \<forall>j < 500.
      grid_geometry out ! (i * 500 + j) = grid_point (axis xmin xmax i) (axis ymin ymax j)"
    by simp
  with len cols corners show ?thesis by blast
qed

theorem interpolation_grid_is_500_by_500_witness:
  "interpolate_point_measures three_points [''temp''] = Inr three_points_surface \<and>
   length (grid_geometry three_points_surface) = 500 * 500 \<and>
   length (snd (hd (grid_columns three_points_surface))) = 500 * 500 \<and>
   (\<exists>x y. \<bar>x - 1\<bar> \<le> 1 / 2 ^ 50 + 1 / 2 ^ 1065 \<and> \<bar>y - 1\<bar> \<le> 1 / 2 ^ 50 + 1 / 2 ^ 1065 \<and>
          grid_geometry three_points_surface ! 0 = Some (0, 0) \<and>
          grid_geometry three_points_surface ! 499 = Some (0, y) \<and>
          grid_geometry three_points_surface ! (499 * 500) = Some (x, 0) \<and>
          grid_geometry three_points_surface ! (500 * 500 - 1) = Some (x, y))"
proof -
  have ne: "geometry three_points \<noteq> []" by (simp add: three_points_def)
  have fl: "\<forall>p \<in> set (geometry three_points).
      is_float64 (fst p) \<and> is_float64 (snd p) \<and> \<bar>fst p\<bar> \<le> 2 ^ 1020 \<and> \<bar>snd p\<bar> \<le> 2 ^ 1020"
    by (simp add: three_points_def is_float64_def float64_zero float64_one)
  have "hd (grid_columns three_points_surface) \<in> set (grid_columns three_points_surface)"
    by (simp add: three_points_surface_def)
  with interpolation_grid_is_500_by_500 [OF three_points_run ne] fl three_points_run
  show ?thesis by (simp add: three_points_def)
qed


text \<open>
  C9, as stated: when an input point coincides exactly with a lattice node, the
  interpolated value of every requested attribute at that node equals the value of the
  input point.  This fails when two rows of the input have the same coordinates and
  different values: both coincide with the same node, and the value at the node cannot
  equal both.
\<close>

theorem duplicate_samples_cannot_both_be_exact:
  "interpolate_point_measures duplicated_points [''temp''] = Inr duplicated_surface \<and>
   map_of (columns duplicated_points) ''temp'' = Some [10, 20, 20, 30] \<and>
   grid_geometry duplicated_surface ! 0 = Some (geometry duplicated_points ! 0) \<and>
   grid_geometry duplicated_surface ! 0 = Some (geometry duplicated_points ! 1) \<and>
   \<not> (snd (hd (grid_columns duplicated_surface)) ! 0 = Some ([10, 20, 20, 30] ! 0) \<and>
      snd (hd (grid_columns duplicated_surface)) ! 0 = Some ([10, 20, 20, 30] ! 1))"
proof -
  have "grid_geometry duplicated_surface ! 0 = Some (0, 0)"
    using nth_mgrid [of 0 0 0 0 1 1] axis_unit_first
    by (simp add: duplicated_surface_def grid_size_def grid_point_def)
  with duplicated_points_run show ?thesis by (simp add: duplicated_points_def)
qed

text \<open>
  C9, amended: when an input point coincides exactly with a lattice node and no other
  row of the input has the same coordinates, the interpolated value of every requested
  attribute at that node equals the value of the input point.  (The lattice is the
  float64 lattice; the barycentric interpolation of scipy is taken exact.)
\<close>

theorem exact_at_single_sample:
  assumes "interpolate_point_measures gdf selected_measures = Inr out"
    and "name \<in> set selected_measures"
    and "l < length (geometry gdf)"
    and "\<forall>l' < length (geometry gdf). geometry gdf ! l' = geometry gdf ! l \<longrightarrow> l' = l"
    and "k < length (grid_geometry out)"
    and "grid_geometry out ! k = Some (geometry gdf ! l)"
  shows "\<exists>vals vs. map_of (columns gdf) name = Some vals \<and>
           map_of (grid_columns out) name = Some vs \<and> vs ! k = Some (vals ! l)"
proof -
  let ?pts = "geometry gdf" and ?grid = "mgrid (total_bounds (geometry gdf))"
  have geo: "grid_geometry out = ?grid" using assms(1) by (rule interpolate_Inr(1))
  from measure_loop_lookup [OF interpolate_Inr(2) [OF assms(1)] assms(2)]
  obtain vals vs where vals: "map_of (columns gdf) name = Some vals"
    and g: "griddata ?pts vals ?grid = Inr vs"
    and vs: "map_of (grid_columns out) name = Some vs"
    by blast
  from griddata_Inr [OF g] have nd: "\<not> degenerate ?pts"
    and eq: "vs = map (interpolate ?pts vals) ?grid" by simp_all
  from eq assms(5,6) geo have "vs ! k = interpolate ?pts vals (Some (?pts ! l))" by simp
  also have "\<dots> = Some (vals ! l)" using nd assms(3,4) by (rule interpolate_at_sample)
  finally show ?thesis using vals vs by blast
qed

theorem exact_at_single_sample_witness:
  "interpolate_point_measures three_points [''temp''] = Inr three_points_surface \<and>
   grid_geometry three_points_surface ! 0 = Some (geometry three_points ! 0) \<and>
   map_of (columns three_points) ''temp'' = Some [10, 20, 30] \<and>
   map_of (grid_columns three_points_surface) ''temp'' =
     Some (snd (hd (grid_columns three_points_surface))) \<and>
   snd (hd (grid_columns three_points_surface)) ! 0 = Some 10"
proof -
  have l: "0 < length (geometry three_points)" by (simp add: three_points_def)
  have single: "\<forall>l' < length (geometry three_points).
      geometry three_points ! l' = geometry three_points ! 0 \<longrightarrow> l' = 0"
    by (auto simp: three_points_def numeral_3_eq_3 less_Suc_eq)
  have k: "0 < length (grid_geometry three_points_surface)"
    by (simp add: three_points_surface_def length_mgrid grid_size_def)
  have n: "grid_geometry three_points_surface ! 0 = Some (geometry three_points ! 0)"
    using nth_mgrid [of 0 0 0 0 1 1] axis_unit_first
    by (simp add: three_points_surface_def three_points_def grid_size_def grid_point_def)
  have c: "map_of (columns three_points) ''temp'' = Some [10, 20, 30]"
    by (simp add: three_points_def)
  have m: "map_of (grid_columns three_points_surface) ''temp'' =
      Some (snd (hd (grid_columns three_points_surface)))"
    by (simp add: three_points_surface_def)
  from exact_at_single_sample [OF three_points_run _ l single k n, of "''temp''"] c m
  have "snd (hd (grid_columns three_points_surface)) ! 0 = Some 10" by auto
  with three_points_run n c m show ?thesis by blast
qed

end
